theory Spec2Isabelle
  imports Complex_Main
begin

section \<open>Data model (src/models)\<close>

text \<open>
  Wallet addresses are strings. The schemas declare every address field
  \<open>lowercase: true\<close> and the handlers call \<open>toLowerCase()\<close> themselves;
  \<open>toLowerCase\<close> maps the ASCII capitals to their small letters (addresses are
  hexadecimal ASCII). A JavaScript Number is read as a real number: the
  development is about which totals are added where, not about rounding of doubles.
  Dates are natural numbers handed in by the caller (\<open>new Date()\<close>, \<open>Date.now()\<close>).
\<close>

definition lower_char :: "char \<Rightarrow> char" where
  "lower_char c =
     (let n = (of_char c :: nat) in if 65 \<le> n \<and> n \<le> 90 then char_of (n + 32) else c)"

definition toLowerCase :: "string \<Rightarrow> string" where
  "toLowerCase s = map lower_char s"

datatype user_status = active | inactive | suspended

record Deposit =
  amount :: real
  txHash :: string
  blockNumber :: nat
  timestamp :: nat

text \<open>models/User.js: \<open>referrerAddress\<close> defaults to \<open>null\<close> (\<open>None\<close>).\<close>

record User =
  walletAddress :: string
  u_referrerAddress :: "string option"
  deposits :: "Deposit list"
  u_registrationTime :: nat
  u_status :: user_status

text \<open>models/Level.js: one row per (descendant, ancestor, level).\<close>

record Level =
  l_userAddress :: string
  l_referrerAddress :: string
  level :: nat
  totalInvestment :: real
  totalEarnings :: real
  isActive :: bool
  l_registrationTime :: nat

datatype token_type = USDT | BDC

datatype investment_status = pending | confirmed | failed

record Investment =
  i_userAddress :: string
  i_amount :: real
  i_txHash :: string
  i_blockNumber :: nat
  i_type :: token_type
  i_status :: investment_status
  investmentTime :: nat

text \<open>The three collections. A document's identity is its position in its collection:
  documents are appended on insert and never removed by the code modelled here.\<close>

record db =
  users :: "User list"
  levels :: "Level list"
  investments :: "Investment list"

datatype error = ValidationError | DuplicateKey

section \<open>Collection operations (the Mongoose calls the handlers make)\<close>

fun findIndex :: "('a \<Rightarrow> bool) \<Rightarrow> 'a list \<Rightarrow> nat option" where
  "findIndex P [] = None"
| "findIndex P (x # xs) = (if P x then Some 0 else map_option Suc (findIndex P xs))"

text \<open>\<open>userSchema.statics.findByWallet\<close>: \<open>findOne({ walletAddress: walletAddress.toLowerCase() })\<close>.\<close>

definition User_findByWallet :: "db \<Rightarrow> string \<Rightarrow> (nat \<times> User) option" where
  "User_findByWallet d w =
     (case findIndex (\<lambda>u. walletAddress u = toLowerCase w) (users d) of
        None \<Rightarrow> None
      | Some i \<Rightarrow> Some (i, users d ! i))"

text \<open>\<open>User.find({ referrerAddress: r, status: 'active' })\<close>.\<close>

definition User_find_referrals :: "db \<Rightarrow> string \<Rightarrow> User list" where
  "User_find_referrals d r =
     filter (\<lambda>u. u_referrerAddress u = Some r \<and> u_status u = active) (users d)"

text \<open>\<open>new User({...}).save()\<close>: \<open>walletAddress\<close> is required (an empty string fails
  \<open>required\<close>), stored lowercase, and unique.\<close>

definition User_insert :: "db \<Rightarrow> User \<Rightarrow> error + db" where
  "User_insert d u =
     (let u' = u\<lparr>walletAddress := toLowerCase (walletAddress u),
                 u_referrerAddress := map_option toLowerCase (u_referrerAddress u)\<rparr>
      in if walletAddress u' = [] then Inl ValidationError
         else if \<exists>v \<in> set (users d). walletAddress v = walletAddress u' then Inl DuplicateKey
         else Inr (d\<lparr>users := users d @ [u']\<rparr>))"

text \<open>\<open>save()\<close> on a document loaded from the store writes it back at its position.
  The paths the handler did not modify were validated when they were written, so only
  a modified path can fail: of the updates made here that is the \<open>txHash\<close> of a pushed
  deposit (\<open>required\<close>).\<close>

definition User_update :: "db \<Rightarrow> nat \<Rightarrow> User \<Rightarrow> db" where
  "User_update d i u = d\<lparr>users := (users d)[i := u]\<rparr>"

text \<open>\<open>userSchema.methods.addDeposit\<close>: push, then save.\<close>

definition addDeposit :: "db \<Rightarrow> nat \<times> User \<Rightarrow> real \<Rightarrow> string \<Rightarrow> nat \<Rightarrow> nat \<Rightarrow> error + db" where
  "addDeposit d doc a tx bn now =
     (case doc of (i, user) \<Rightarrow>
        if tx = [] then Inl ValidationError
        else Inr (User_update d i
               (user\<lparr>deposits := deposits user @
                  [\<lparr>amount = a, txHash = tx, blockNumber = bn, timestamp = now\<rparr>]\<rparr>)))"

text \<open>\<open>Level.findOne({ userAddress, referrerAddress, level })\<close>.\<close>

definition Level_findOne :: "db \<Rightarrow> string \<Rightarrow> string \<Rightarrow> nat \<Rightarrow> (nat \<times> Level) option" where
  "Level_findOne d ua ra lv =
     (case findIndex (\<lambda>l. l_userAddress l = ua \<and> l_referrerAddress l = ra \<and> level l = lv) (levels d) of
        None \<Rightarrow> None
      | Some i \<Rightarrow> Some (i, levels d ! i))"

text \<open>\<open>new Level({...}).save()\<close>: both addresses required and stored lowercase,
  \<open>level\<close> validated by \<open>min: 1, max: 21\<close>.\<close>

definition Level_valid :: "Level \<Rightarrow> bool" where
  "Level_valid l \<longleftrightarrow> l_userAddress l \<noteq> [] \<and> l_referrerAddress l \<noteq> [] \<and> 1 \<le> level l \<and> level l \<le> 21"

definition Level_insert :: "db \<Rightarrow> Level \<Rightarrow> error + db" where
  "Level_insert d l =
     (let l' = l\<lparr>l_userAddress := toLowerCase (l_userAddress l),
                 l_referrerAddress := toLowerCase (l_referrerAddress l)\<rparr>
      in if Level_valid l' then Inr (d\<lparr>levels := levels d @ [l']\<rparr>) else Inl ValidationError)"

definition Level_update :: "db \<Rightarrow> nat \<Rightarrow> Level \<Rightarrow> db" where
  "Level_update d i l = d\<lparr>levels := (levels d)[i := l]\<rparr>"

text \<open>\<open>Level.find({ userAddress, isActive: true })\<close>: the matching documents, each with
  its position, as they are at the time of the query.\<close>

definition Level_find_active_of :: "db \<Rightarrow> string \<Rightarrow> (nat \<times> Level) list" where
  "Level_find_active_of d ua =
     filter (\<lambda>(i, l). l_userAddress l = ua \<and> isActive l) (enumerate 0 (levels d))"

text \<open>\<open>Level.findOne({ userAddress, referrerAddress, level, isActive: true })\<close>.\<close>

definition Level_findOne_active :: "db \<Rightarrow> string \<Rightarrow> string \<Rightarrow> nat \<Rightarrow> (nat \<times> Level) option" where
  "Level_findOne_active d ua ra lv =
     (case findIndex (\<lambda>l. l_userAddress l = ua \<and> l_referrerAddress l = ra \<and> level l = lv \<and> isActive l)
             (levels d) of
        None \<Rightarrow> None
      | Some i \<Rightarrow> Some (i, levels d ! i))"

text \<open>\<open>levelSchema.methods.addInvestment\<close> and \<open>addEarnings\<close>: the field update; the
  \<open>save()\<close> that follows is \<open>Level_update\<close>.\<close>

definition addInvestment :: "Level \<Rightarrow> real \<Rightarrow> Level" where
  "addInvestment l a = l\<lparr>totalInvestment := totalInvestment l + a\<rparr>"

definition addEarnings :: "Level \<Rightarrow> real \<Rightarrow> Level" where
  "addEarnings l a = l\<lparr>totalEarnings := totalEarnings l + a\<rparr>"

text \<open>\<open>new Investment({...}).save()\<close>: \<open>userAddress\<close>, \<open>amount\<close>, \<open>txHash\<close> required,
  \<open>amount\<close> validated by \<open>min: 0\<close>, \<open>txHash\<close> unique (the index rejects a second
  document with the same value).\<close>

definition Investment_insert :: "db \<Rightarrow> Investment \<Rightarrow> error + db" where
  "Investment_insert d investment =
     (let investment' = investment\<lparr>i_userAddress := toLowerCase (i_userAddress investment)\<rparr>
      in if i_userAddress investment' = [] \<or> i_amount investment' < 0 \<or> i_txHash investment' = []
         then Inl ValidationError
         else if \<exists>v \<in> set (investments d). i_txHash v = i_txHash investment' then Inl DuplicateKey
         else Inr (d\<lparr>investments := investments d @ [investment']\<rparr>))"

section \<open>Graph materializer (EventListener)\<close>

text \<open>\<open>getUplineChain(userAddress, maxLevels)\<close>: the loop
  \<open>for (i = 0; i < maxLevels; i++)\<close> with its two variables \<open>currentAddress\<close> and
  \<open>uplineChain\<close>; \<open>!user.referrerAddress\<close> holds for \<open>null\<close> and for the empty string.\<close>

function getUplineChain_loop :: "db \<Rightarrow> string \<Rightarrow> nat \<Rightarrow> nat \<Rightarrow> string list \<Rightarrow> string list" where
  "getUplineChain_loop d currentAddress i maxLevels uplineChain =
     (if i < maxLevels then
        (case User_findByWallet d currentAddress of
           None \<Rightarrow> uplineChain
         | Some (_, user) \<Rightarrow>
             (case u_referrerAddress user of
                None \<Rightarrow> uplineChain
              | Some r \<Rightarrow>
                  if r = [] then uplineChain
                  else getUplineChain_loop d r (i + 1) maxLevels (uplineChain @ [r])))
      else uplineChain)"
  by pat_completeness auto
termination
  by (relation "measure (\<lambda>(d, c, i, m, ch). m - i)") auto

definition getUplineChain :: "db \<Rightarrow> string \<Rightarrow> nat \<Rightarrow> string list" where
  "getUplineChain d userAddress maxLevels =
     getUplineChain_loop d (toLowerCase userAddress) 0 maxLevels []"

text \<open>\<open>createLevelRelationships\<close>: the loop
  \<open>for (i = 0; i < uplineChain.length && i < 21; i++)\<close>. A failing \<open>save()\<close> leaves the
  loop; the surrounding \<open>try/catch\<close> logs the error and the function returns normally.
  The result is the store and the errors logged.\<close>

function createLevelRelationships_loop ::
  "db \<Rightarrow> string \<Rightarrow> string list \<Rightarrow> nat \<Rightarrow> nat \<Rightarrow> db \<times> error list" where
  "createLevelRelationships_loop d userAddress uplineChain i now =
     (if i < length uplineChain \<and> i < 21 then
        (let lv = i + 1; uplineAddress = uplineChain ! i in
         case Level_findOne d (toLowerCase userAddress) (toLowerCase uplineAddress) lv of
           Some existingLevel \<Rightarrow> createLevelRelationships_loop d userAddress uplineChain (i + 1) now
         | None \<Rightarrow>
             (case Level_insert d
                     \<lparr>l_userAddress = toLowerCase userAddress,
                      l_referrerAddress = toLowerCase uplineAddress,
                      level = lv, totalInvestment = 0, totalEarnings = 0,
                      isActive = True, l_registrationTime = now\<rparr> of
                Inl e \<Rightarrow> (d, [e])
              | Inr d' \<Rightarrow> createLevelRelationships_loop d' userAddress uplineChain (i + 1) now))
      else (d, []))"
  by pat_completeness auto
termination
  by (relation "measure (\<lambda>(d, u, ch, i, now). length ch - i)") auto

definition createLevelRelationships :: "db \<Rightarrow> string \<Rightarrow> string \<Rightarrow> nat \<Rightarrow> db \<times> error list" where
  "createLevelRelationships d userAddress referrerAddress now =
     createLevelRelationships_loop d userAddress (getUplineChain d referrerAddress 21) 0 now"

text \<open>\<open>handleRegistrationEvent\<close>: creates the user, or overwrites the referrer of an
  existing one, then materializes. Errors are caught and logged.\<close>

definition handleRegistrationEvent :: "db \<Rightarrow> string \<Rightarrow> string \<Rightarrow> nat \<Rightarrow> db \<times> error list" where
  "handleRegistrationEvent d userAddress referrerAddress now =
     (case User_findByWallet d userAddress of
        None \<Rightarrow>
          (case User_insert d
                  \<lparr>walletAddress = toLowerCase userAddress,
                   u_referrerAddress = Some (toLowerCase referrerAddress),
                   deposits = [], u_registrationTime = now, u_status = active\<rparr> of
             Inl e \<Rightarrow> (d, [e])
           | Inr d1 \<Rightarrow> createLevelRelationships d1 userAddress referrerAddress now)
      | Some (i, user) \<Rightarrow>
          createLevelRelationships
            (User_update d i (user\<lparr>u_referrerAddress := Some (toLowerCase referrerAddress)\<rparr>))
            userAddress referrerAddress now)"

text \<open>\<open>updateLevelInvestments\<close>: the \<open>for (const relation of levelRelations)\<close> loop over
  the documents found, each saved with its own total plus the amount.\<close>

fun updateLevelInvestments_each :: "db \<Rightarrow> (nat \<times> Level) list \<Rightarrow> real \<Rightarrow> db" where
  "updateLevelInvestments_each d [] a = d"
| "updateLevelInvestments_each d ((i, relation) # rest) a =
     updateLevelInvestments_each (Level_update d i (addInvestment relation a)) rest a"

definition updateLevelInvestments :: "db \<Rightarrow> string \<Rightarrow> real \<Rightarrow> db" where
  "updateLevelInvestments d userAddress a =
     updateLevelInvestments_each d (Level_find_active_of d (toLowerCase userAddress)) a"

text \<open>\<open>handleDepositEvent\<close>, in the order of the source: find or create the user, push
  the deposit onto the user, save the ledger entry, propagate to the level rows. The
  amount is the parsed \<open>parseFloat(ethers.formatEther(amount))\<close>; \<open>tx\<close> and \<open>bn\<close> are
  \<open>event.transactionHash\<close> and \<open>event.blockNumber\<close>; \<open>ty\<close> is the value of
  \<open>token === 0 ? 'USDT' : 'BDC'\<close>. The first failing \<open>save()\<close> leaves the body: the
  \<open>catch\<close> logs it and the handler returns normally.\<close>

definition handleDepositEvent ::
  "db \<Rightarrow> string \<Rightarrow> real \<Rightarrow> token_type \<Rightarrow> string \<Rightarrow> nat \<Rightarrow> nat \<Rightarrow> db \<times> error list" where
  "handleDepositEvent d userAddress a ty tx bn now =
     (case (case User_findByWallet d userAddress of
              Some doc \<Rightarrow> Inr (d, doc)
            | None \<Rightarrow>
                (let user = \<lparr>walletAddress = toLowerCase userAddress, u_referrerAddress = None,
                              deposits = [], u_registrationTime = now, u_status = active\<rparr>
                 in case User_insert d user of
                      Inl e \<Rightarrow> Inl e
                    | Inr d0 \<Rightarrow> Inr (d0, (length (users d), user)))) of
        Inl e \<Rightarrow> (d, [e])
      | Inr (d0, doc) \<Rightarrow>
          (case addDeposit d0 doc a tx bn now of
             Inl e \<Rightarrow> (d0, [e])
           | Inr d1 \<Rightarrow>
               (case Investment_insert d1
                       \<lparr>i_userAddress = toLowerCase userAddress, i_amount = a, i_txHash = tx,
                        i_blockNumber = bn, i_type = ty, i_status = confirmed,
                        investmentTime = now\<rparr> of
                  Inl e \<Rightarrow> (d1, [e])
                | Inr d2 \<Rightarrow> (updateLevelInvestments d2 userAddress a, []))))"

text \<open>\<open>updateLevelEarnings(userAddress, fromAddress, amount, level)\<close>: no \<open>else\<close> branch,
  nothing thrown and nothing logged as an error when the row is not found.\<close>

definition updateLevelEarnings :: "db \<Rightarrow> string \<Rightarrow> string \<Rightarrow> real \<Rightarrow> nat \<Rightarrow> db \<times> error list" where
  "updateLevelEarnings d userAddress fromAddress a lv =
     (case Level_findOne_active d (toLowerCase fromAddress) (toLowerCase userAddress) lv of
        Some (i, levelRelation) \<Rightarrow> (Level_update d i (addEarnings levelRelation a), [])
      | None \<Rightarrow> (d, []))"

text \<open>\<open>handleTransactionEvent\<close>: the value parsed, then \<open>updateLevelEarnings\<close>; its own
  \<open>try/catch\<close> has nothing to catch from it.\<close>

definition handleTransactionEvent :: "db \<Rightarrow> string \<Rightarrow> string \<Rightarrow> real \<Rightarrow> nat \<Rightarrow> db \<times> error list" where
  "handleTransactionEvent d userAddress fromAddress a lv =
     updateLevelEarnings d userAddress fromAddress a lv"

subsection \<open>Scenario A and other concrete stores\<close>

definition empty_db :: db where
  "empty_db = \<lparr>users = [], levels = [], investments = []\<rparr>"

text \<open>Scenario A: root R registers with referrer \<open>r0\<close> (the event carries a string; the
  empty string or the zero address stand for "no referrer"), then U1 under R, then U2
  under U1.\<close>

definition scenario_A :: "string \<Rightarrow> db" where
  "scenario_A r0 =
     fst (handleRegistrationEvent
       (fst (handleRegistrationEvent
         (fst (handleRegistrationEvent empty_db ''0xR'' r0 1)) ''0xU1'' ''0xR'' 2)) ''0xU2'' ''0xU1'' 3)"

definition level_key :: "Level \<Rightarrow> string \<times> string \<times> nat" where
  "level_key l = (l_userAddress l, l_referrerAddress l, level l)"

text \<open>A store whose only level row is inactive (housekeeping marks rows of inactive
  users \<open>isActive: false\<close>), and the replay of one deposit event.\<close>

definition inactive_row_db :: db where
  "inactive_row_db =
     \<lparr>users = [\<lparr>walletAddress = ''0xd'', u_referrerAddress = Some ''0xa'', deposits = [],
                 u_registrationTime = 1, u_status = inactive\<rparr>],
      levels = [\<lparr>l_userAddress = ''0xd'', l_referrerAddress = ''0xa'', level = 1,
                  totalInvestment = 0, totalEarnings = 0, isActive = False,
                  l_registrationTime = 1\<rparr>],
      investments = []\<rparr>"

definition replay_once :: "db \<times> error list" where
  "replay_once = handleDepositEvent (scenario_A []) ''0xU2'' 100 USDT ''0xt1'' 7 9"

definition replay_twice :: "db \<times> error list" where
  "replay_twice = handleDepositEvent (fst replay_once) ''0xU2'' 100 USDT ''0xt1'' 7 10"

text \<open>What a row created by \<open>createLevelRelationships\<close> for user \<open>u\<close> and chain \<open>ch\<close>, from
  position \<open>i\<close> on, looks like.\<close>

definition new_row :: "string \<Rightarrow> string list \<Rightarrow> nat \<Rightarrow> Level \<Rightarrow> bool" where
  "new_row u ch i l \<longleftrightarrow>
     l_userAddress l = toLowerCase u \<and> totalInvestment l = 0 \<and> totalEarnings l = 0 \<and> isActive l \<and>
     (\<exists>k. i \<le> k \<and> k < length ch \<and> k < 21 \<and>
          l_referrerAddress l = toLowerCase (ch ! k) \<and> level l = k + 1)"

definition zero_address :: string where
  "zero_address = ''0x0000000000000000000000000000000000000000''"

section \<open>The setup-levels route (routes/userRoutes.js)\<close>

text \<open>\<open>createDeeperLevels(userAddress, originalReferrer, currentLevel)\<close>: the guard
  \<open>if (currentLevel > 21) return\<close>, the query for the active referrals of
  \<open>userAddress\<close>, and the \<open>for\<close> loop over them, which looks the key up, inserts the row
  when it is missing and recurses one level deeper. A failing \<open>save()\<close> propagates out
  of every enclosing call (the second component); the rows written before it stay.\<close>

function createDeeperLevels :: "db \<Rightarrow> string \<Rightarrow> string \<Rightarrow> nat \<Rightarrow> db \<times> error option"
  and createDeeperLevels_each :: "db \<Rightarrow> User list \<Rightarrow> string \<Rightarrow> nat \<Rightarrow> db \<times> error option" where
  "createDeeperLevels d userAddress originalReferrer currentLevel =
     (if currentLevel > 21 then (d, None)
      else createDeeperLevels_each d (User_find_referrals d userAddress) originalReferrer currentLevel)"
| "createDeeperLevels_each d [] originalReferrer currentLevel = (d, None)"
| "createDeeperLevels_each d (referral # rest) originalReferrer currentLevel =
     (case (case Level_findOne d (walletAddress referral) originalReferrer currentLevel of
              Some existingLevel \<Rightarrow> Inr d
            | None \<Rightarrow>
                Level_insert d
                  \<lparr>l_userAddress = walletAddress referral, l_referrerAddress = originalReferrer,
                   level = currentLevel, totalInvestment = 0, totalEarnings = 0,
                   isActive = True, l_registrationTime = u_registrationTime referral\<rparr>) of
        Inl e \<Rightarrow> (d, Some e)
      | Inr d1 \<Rightarrow>
          (case createDeeperLevels d1 (walletAddress referral) originalReferrer (currentLevel + 1) of
             (d2, Some e) \<Rightarrow> (d2, Some e)
           | (d2, None) \<Rightarrow> createDeeperLevels_each d2 rest originalReferrer currentLevel))"
  by pat_completeness auto
termination
  by (relation "measures
        [\<lambda>x. case x of
            Inl (d, u, r, lv) \<Rightarrow> (if lv > 21 then 0 else 2 * (22 - lv) + 1)
          | Inr (d, us, r, lv) \<Rightarrow> (if lv > 21 then 1 else 2 * (22 - lv)),
         \<lambda>x. case x of Inl (d, u, r, lv) \<Rightarrow> 0 | Inr (d, us, r, lv) \<Rightarrow> length us]")
     (auto split: if_splits)

text \<open>\<open>POST /:walletAddress/setup-levels\<close>: 404 when the user is unknown; the first loop
  creates the level 1 rows of the direct referrals, the second calls
  \<open>createDeeperLevels\<close> for each of them from level 2; the route's \<open>catch\<close> answers 500.\<close>

fun setup_level1_each :: "db \<Rightarrow> User list \<Rightarrow> string \<Rightarrow> db \<times> error option" where
  "setup_level1_each d [] walletAddr = (d, None)"
| "setup_level1_each d (referral # rest) walletAddr =
     (case Level_findOne d (walletAddress referral) walletAddr 1 of
        Some existingLevel \<Rightarrow> setup_level1_each d rest walletAddr
      | None \<Rightarrow>
          (case Level_insert d
                  \<lparr>l_userAddress = walletAddress referral, l_referrerAddress = walletAddr,
                   level = 1, totalInvestment = 0, totalEarnings = 0,
                   isActive = True, l_registrationTime = u_registrationTime referral\<rparr> of
             Inl e \<Rightarrow> (d, Some e)
           | Inr d' \<Rightarrow> setup_level1_each d' rest walletAddr))"

fun setup_deeper_each :: "db \<Rightarrow> User list \<Rightarrow> string \<Rightarrow> db \<times> error option" where
  "setup_deeper_each d [] walletAddr = (d, None)"
| "setup_deeper_each d (referral # rest) walletAddr =
     (case createDeeperLevels d (walletAddress referral) walletAddr 2 of
        (d', Some e) \<Rightarrow> (d', Some e)
      | (d', None) \<Rightarrow> setup_deeper_each d' rest walletAddr)"

datatype setup_response = NotFound | InternalError error | Completed nat

definition setup_levels :: "db \<Rightarrow> string \<Rightarrow> db \<times> setup_response" where
  "setup_levels d rawAddress =
     (let walletAddr = toLowerCase rawAddress in
      case User_findByWallet d walletAddr of
        None \<Rightarrow> (d, NotFound)
      | Some user \<Rightarrow>
          (let directReferrals = User_find_referrals d walletAddr in
           case setup_level1_each d directReferrals walletAddr of
             (d1, Some e) \<Rightarrow> (d1, InternalError e)
           | (d1, None) \<Rightarrow>
               (case setup_deeper_each d1 directReferrals walletAddr of
                  (d2, Some e) \<Rightarrow> (d2, InternalError e)
                | (d2, None) \<Rightarrow> (d2, Completed (length directReferrals)))))"

section \<open>Sequences of operations\<close>

datatype operation =
    Registration string string nat
  | DepositConfirmed string real token_type string nat nat
  | CommissionPaid string string real nat
  | SetupLevels string

fun apply_operation :: "db \<Rightarrow> operation \<Rightarrow> db" where
  "apply_operation d (Registration u r now) = fst (handleRegistrationEvent d u r now)"
| "apply_operation d (DepositConfirmed u a ty tx bn now) = fst (handleDepositEvent d u a ty tx bn now)"
| "apply_operation d (CommissionPaid b s a lv) = fst (handleTransactionEvent d b s a lv)"
| "apply_operation d (SetupLevels w) = fst (setup_levels d w)"

definition run :: "db \<Rightarrow> operation list \<Rightarrow> db" where
  "run d ops = foldl apply_operation d ops"

text \<open>A directory that is one referral chain of \<open>n\<close> users: user \<open>k\<close> was referred by
  user \<open>k - 1\<close>, user 0 is the root.\<close>

definition chain_user :: "nat \<Rightarrow> string" where
  "chain_user n = ''0xc'' @ replicate n (CHR ''a'')"

definition chain_db :: "nat \<Rightarrow> db" where
  "chain_db n =
     \<lparr>users = map (\<lambda>k. \<lparr>walletAddress = chain_user k,
                          u_referrerAddress = (if k = 0 then None else Some (chain_user (k - 1))),
                          deposits = [], u_registrationTime = k, u_status = active\<rparr>) [0..<n],
      levels = [], investments = []\<rparr>"

text \<open>\<open>grows d d'\<close>: the level collection of \<open>d'\<close> continues that of \<open>d\<close>: no row is
  gone, the rows of \<open>d\<close> keep their \<open>level\<close>, and every further row has its level in
  1..21.\<close>

definition level_in_range :: "Level \<Rightarrow> bool" where
  "level_in_range l \<longleftrightarrow> 1 \<le> level l \<and> level l \<le> 21"

definition grows :: "db \<Rightarrow> db \<Rightarrow> bool" where
  "grows d d' \<longleftrightarrow>
     length (levels d) \<le> length (levels d') \<and>
     (\<forall>j < length (levels d). level (levels d' ! j) = level (levels d ! j)) \<and>
     (\<forall>j. length (levels d) \<le> j \<and> j < length (levels d') \<longrightarrow> level_in_range (levels d' ! j))"

section \<open>Fallback recursive walk (routes/referralRoutes.js)\<close>

text \<open>\<open>Investment.find({ userAddress })\<close> and the \<open>reduce\<close> that sums the amounts.\<close>

definition Investment_find_by_user :: "db \<Rightarrow> string \<Rightarrow> Investment list" where
  "Investment_find_by_user d ua = filter (\<lambda>iv. i_userAddress iv = ua) (investments d)"

definition userInvestment :: "db \<Rightarrow> string \<Rightarrow> real" where
  "userInvestment d ua = foldl (\<lambda>sum iv. sum + i_amount iv) 0 (Investment_find_by_user d ua)"

text \<open>The object pushed for a user found at the target level (tree-direct).\<close>

record LevelUser =
  lu_userAddress :: string
  lu_level :: nat
  lu_totalInvestment :: real
  lu_totalEarnings :: real
  lu_registrationTime :: nat
  lu_isActive :: bool
  lu_depositCount :: nat

definition level_user :: "db \<Rightarrow> nat \<Rightarrow> User \<Rightarrow> LevelUser" where
  "level_user d targetLevel userRef =
     \<lparr>lu_userAddress = walletAddress userRef, lu_level = targetLevel,
      lu_totalInvestment = userInvestment d (walletAddress userRef), lu_totalEarnings = 0,
      lu_registrationTime = u_registrationTime userRef,
      lu_isActive = (u_status userRef = active),
      lu_depositCount = length (deposits userRef)\<rparr>"

text \<open>\<open>getUsersAtLevel(currentReferrer, targetLevel, currentLevel = 1)\<close> of the
  tree-direct route: the guard \<open>if (currentLevel > 21) return []\<close>, the query for the
  active direct referrals, and either the annotated referrals (at the target level) or
  the concatenation of the recursive results for each referral.\<close>

function getUsersAtLevel :: "db \<Rightarrow> string \<Rightarrow> nat \<Rightarrow> nat \<Rightarrow> LevelUser list" where
  "getUsersAtLevel d currentReferrer targetLevel currentLevel =
     (if currentLevel > 21 then []
      else
        (let directReferrals = User_find_referrals d (toLowerCase currentReferrer) in
         if currentLevel = targetLevel then map (level_user d targetLevel) directReferrals
         else concat (map (\<lambda>userRef.
                 getUsersAtLevel d (walletAddress userRef) targetLevel (currentLevel + 1))
               directReferrals)))"
  by pat_completeness auto
termination
  by (relation "measure (\<lambda>(d, r, t, c). 22 - c)") auto

text \<open>The same function in the stats-direct route; it pushes a smaller object.\<close>

record StatsUser =
  su_userAddress :: string
  su_totalInvestment :: real
  su_depositCount :: nat

definition stats_user :: "db \<Rightarrow> User \<Rightarrow> StatsUser" where
  "stats_user d userRef =
     \<lparr>su_userAddress = walletAddress userRef,
      su_totalInvestment = userInvestment d (walletAddress userRef),
      su_depositCount = length (deposits userRef)\<rparr>"

function getUsersAtLevel_stats :: "db \<Rightarrow> string \<Rightarrow> nat \<Rightarrow> nat \<Rightarrow> StatsUser list" where
  "getUsersAtLevel_stats d currentReferrer targetLevel currentLevel =
     (if currentLevel > 21 then []
      else
        (let directRefs = User_find_referrals d (toLowerCase currentReferrer) in
         if currentLevel = targetLevel then map (stats_user d) directRefs
         else concat (map (\<lambda>userRef.
                 getUsersAtLevel_stats d (walletAddress userRef) targetLevel (currentLevel + 1))
               directRefs)))"
  by pat_completeness auto
termination
  by (relation "measure (\<lambda>(d, r, t, c). 22 - c)") auto

text \<open>The values of \<open>currentLevel\<close> with which \<open>getUsersAtLevel\<close> is entered, in call
  order (the recursion of either variant).\<close>

function getUsersAtLevel_calls :: "db \<Rightarrow> string \<Rightarrow> nat \<Rightarrow> nat \<Rightarrow> nat list" where
  "getUsersAtLevel_calls d currentReferrer targetLevel currentLevel =
     currentLevel #
     (if currentLevel > 21 then []
      else
        (let directReferrals = User_find_referrals d (toLowerCase currentReferrer) in
         if currentLevel = targetLevel then []
         else concat (map (\<lambda>userRef.
                 getUsersAtLevel_calls d (walletAddress userRef) targetLevel (currentLevel + 1))
               directReferrals)))"
  by pat_completeness auto
termination
  by (relation "measure (\<lambda>(d, r, t, c). 22 - c)") auto

text \<open>"User \<open>u\<close> is \<open>n\<close> referral edges below address \<open>r\<close>, through active users":
  walking up from \<open>u\<close>, each of the \<open>n\<close> users passed (\<open>u\<close> included, \<open>r\<close> excluded) is
  active and points to the next one, the last one to \<open>r\<close>.\<close>

fun at_level :: "db \<Rightarrow> User \<Rightarrow> nat \<Rightarrow> string \<Rightarrow> bool" where
  "at_level d u 0 r = False"
| "at_level d u (Suc 0) r = (u_status u = active \<and> u_referrerAddress u = Some r)"
| "at_level d u (Suc (Suc n)) r =
     (u_status u = active \<and>
      (\<exists>p \<in> set (users d). u_referrerAddress u = Some (toLowerCase (walletAddress p)) \<and>
                            at_level d p (Suc n) r))"

text \<open>The same relation read from the top, as the walk goes down from \<open>r\<close>.\<close>

fun descends :: "db \<Rightarrow> string \<Rightarrow> nat \<Rightarrow> User \<Rightarrow> bool" where
  "descends d r 0 u = False"
| "descends d r (Suc 0) u = (u_status u = active \<and> u_referrerAddress u = Some r)"
| "descends d r (Suc (Suc n)) u =
     (\<exists>v \<in> set (users d). u_status v = active \<and> u_referrerAddress v = Some r \<and>
                            descends d (toLowerCase (walletAddress v)) (Suc n) u)"

section \<open>Aggregation engine (routes/levelRoutes.js)\<close>

































section \<open>Result cache (the cache manager) and the stats-direct route\<close>

text \<open>\<open>SimpleCache\<close>: a \<open>Map\<close> from keys to \<open>{ value, expiry }\<close> and a default time to
  live. \<open>set\<close> stores with \<open>expiry = Date.now() + (customTtl || this.ttl)\<close> (a \<open>null\<close> or
  zero \<open>customTtl\<close> is falsy); \<open>get\<close> answers \<open>undefined\<close> (\<open>None\<close>) for a missing
  entry and for one with \<open>Date.now() > item.expiry\<close>, which it deletes. The values
  cached are result objects, never \<open>undefined\<close>.\<close>

record 'v cache_item =
  ci_value :: 'v
  ci_expiry :: nat

record 'v SimpleCache =
  cache :: "string \<rightharpoonup> 'v cache_item"
  ttl :: nat

definition SimpleCache_set :: "'v SimpleCache \<Rightarrow> nat \<Rightarrow> string \<Rightarrow> 'v \<Rightarrow> nat option \<Rightarrow> 'v SimpleCache" where
  "SimpleCache_set c now key v customTtl =
     (let expiry = now + (case customTtl of
                            None \<Rightarrow> ttl c
                          | Some t \<Rightarrow> if t = 0 then ttl c else t)
      in c\<lparr>cache := (cache c)(key \<mapsto> \<lparr>ci_value = v, ci_expiry = expiry\<rparr>)\<rparr>)"

definition SimpleCache_get :: "'v SimpleCache \<Rightarrow> nat \<Rightarrow> string \<Rightarrow> 'v option \<times> 'v SimpleCache" where
  "SimpleCache_get c now key =
     (case cache c key of
        None \<Rightarrow> (None, c)
      | Some item \<Rightarrow>
          if now > ci_expiry item then (None, c\<lparr>cache := (cache c)(key := None)\<rparr>)
          else (Some (ci_value item), c))"



fun join :: "string \<Rightarrow> string list \<Rightarrow> string" where
  "join sep [] = []"
| "join sep [x] = x"
| "join sep (x # y # ys) = x @ sep @ join sep (y # ys)"

definition generateKey :: "string \<Rightarrow> string list \<Rightarrow> string" where
  "generateKey prefix params = prefix @ '':'' @ join '':'' params"


















section \<open>Facts about the collection operations\<close>

lemma lower_char_idem: "lower_char (lower_char c) = lower_char c"
  by (simp add: lower_char_def Let_def)

lemma toLowerCase_idem: "toLowerCase (toLowerCase s) = toLowerCase s"
  by (simp add: toLowerCase_def lower_char_idem)

lemma toLowerCase_Nil_iff: "toLowerCase s = [] \<longleftrightarrow> s = []"
  by (simp add: toLowerCase_def)

lemma findIndex_None_iff: "findIndex P xs = None \<longleftrightarrow> (\<forall>x \<in> set xs. \<not> P x)"
  by (induction xs) auto

lemma findIndex_Some_iff:
  "findIndex P xs = Some i \<longleftrightarrow> i < length xs \<and> P (xs ! i) \<and> (\<forall>j < i. \<not> P (xs ! j))"
proof (induction xs arbitrary: i)
  case Nil
  then show ?case by simp
next
  case (Cons x xs)
  show ?case
  proof (cases "P x")
    case True
    then show ?thesis by (cases i) auto
  next
    case False
    then show ?thesis
      using Cons.IH by (cases i) (auto simp: less_Suc_eq_0_disj)
  qed
qed

lemma findIndex_append_Some:
  "findIndex P xs = Some i \<Longrightarrow> findIndex P (xs @ ys) = Some i"
  by (induction xs arbitrary: i) (auto split: if_splits)

lemma findIndex_snoc_new:
  "findIndex P xs = None \<Longrightarrow> P y \<Longrightarrow> findIndex P (xs @ [y]) = Some (length xs)"
  by (induction xs) (auto split: if_splits)

lemma each_length:
  "length (levels (updateLevelInvestments_each d ps a)) = length (levels d)"
  by (induction d ps a rule: updateLevelInvestments_each.induct) (simp_all add: Level_update_def)

lemma each_users:
  "users (updateLevelInvestments_each d ps a) = users d"
  "investments (updateLevelInvestments_each d ps a) = investments d"
  by (induction d ps a rule: updateLevelInvestments_each.induct) (simp_all add: Level_update_def)

lemma each_nth:
  "distinct (map fst ps) \<Longrightarrow> j < length (levels d) \<Longrightarrow>
   levels (updateLevelInvestments_each d ps a) ! j =
     (case map_of ps j of None \<Rightarrow> levels d ! j | Some r \<Rightarrow> addInvestment r a)"
proof (induction d ps a rule: updateLevelInvestments_each.induct)
  case (1 d a)
  then show ?case by simp
next
  case (2 d i relation rest a)
  have "map_of rest i = None"
    using "2.prems"(1) by (simp add: map_of_eq_None_iff)
  then show ?case
    using 2 by (auto simp: Level_update_def split: option.splits)
qed

lemma find_active_distinct: "distinct (map fst (Level_find_active_of d ua))"
  by (simp add: Level_find_active_of_def distinct_map_filter)

lemma find_active_map_of:
  "j < length (levels d) \<Longrightarrow>
   map_of (Level_find_active_of d ua) j =
     (if l_userAddress (levels d ! j) = ua \<and> isActive (levels d ! j) then Some (levels d ! j) else None)"
proof -
  assume j: "j < length (levels d)"
  let ?ps = "Level_find_active_of d ua"
  have mem: "\<And>r. (j, r) \<in> set ?ps \<longleftrightarrow> r = levels d ! j \<and> l_userAddress r = ua \<and> isActive r"
    using j by (auto simp: Level_find_active_of_def in_set_enumerate_eq)
  show ?thesis
  proof (cases "l_userAddress (levels d ! j) = ua \<and> isActive (levels d ! j)")
    case True
    then have "(j, levels d ! j) \<in> set ?ps" using mem by simp
    then have "map_of ?ps j = Some (levels d ! j)"
      using find_active_distinct by (simp add: map_of_eq_Some_iff)
    with True show ?thesis by simp
  next
    case False
    then have "\<And>r. (j, r) \<notin> set ?ps" using mem by auto
    then have "map_of ?ps j = None"
      by (metis map_of_SomeD not_Some_eq)
    with False show ?thesis by simp
  qed
qed

lemma updateLevelInvestments_levels:
  "levels (updateLevelInvestments d userAddress a) =
     map (\<lambda>l. if l_userAddress l = toLowerCase userAddress \<and> isActive l then addInvestment l a else l)
         (levels d)"
  by (rule nth_equalityI)
     (simp_all add: updateLevelInvestments_def each_length each_nth find_active_distinct find_active_map_of)

lemma User_insert_Inr:
  "User_insert d u = Inr d' \<Longrightarrow>
   levels d' = levels d \<and> investments d' = investments d \<and>
   users d' = users d @ [u\<lparr>walletAddress := toLowerCase (walletAddress u),
                           u_referrerAddress := map_option toLowerCase (u_referrerAddress u)\<rparr>]"
  by (auto simp: User_insert_def Let_def split: if_splits)

lemma addDeposit_Inr:
  "addDeposit d doc a tx bn now = Inr d' \<Longrightarrow> levels d' = levels d \<and> investments d' = investments d"
  by (auto simp: addDeposit_def User_update_def split: prod.splits if_splits)

lemma Investment_insert_Inr:
  "Investment_insert d iv = Inr d' \<Longrightarrow>
   levels d' = levels d \<and> users d' = users d \<and>
   investments d' = investments d @ [iv\<lparr>i_userAddress := toLowerCase (i_userAddress iv)\<rparr>]"
  by (auto simp: Investment_insert_def Let_def split: if_splits)

lemma findByWallet_Some_iff:
  "(\<exists>doc. User_findByWallet d w = Some doc) \<longleftrightarrow> (\<exists>x \<in> set (users d). walletAddress x = toLowerCase w)"
  using findIndex_None_iff [of "\<lambda>u. walletAddress u = toLowerCase w" "users d"]
  by (auto simp: User_findByWallet_def split: option.splits)

lemma findByWallet_SomeD:
  "User_findByWallet d w = Some (i, u) \<Longrightarrow>
   i < length (users d) \<and> u = users d ! i \<and> walletAddress u = toLowerCase w"
  by (auto simp: User_findByWallet_def findIndex_Some_iff split: option.splits)

lemma deposit_success_facts:
  assumes "handleDepositEvent d D a ty tx bn now = (d1, [])"
  shows "tx \<noteq> []" and "toLowerCase D \<noteq> []" and "0 \<le> a"
    and "\<forall>v \<in> set (investments d). i_txHash v \<noteq> tx"
    and "investments d1 = investments d @
           [\<lparr>i_userAddress = toLowerCase D, i_amount = a, i_txHash = tx, i_blockNumber = bn,
             i_type = ty, i_status = confirmed, investmentTime = now\<rparr>]"
    and "\<exists>x \<in> set (users d1). walletAddress x = toLowerCase D"
proof -
  obtain d0 i user where doc:
    "(User_findByWallet d D = Some (i, user) \<and> d0 = d) \<or>
     (User_findByWallet d D = None \<and> i = length (users d) \<and>
      user = \<lparr>walletAddress = toLowerCase D, u_referrerAddress = None, deposits = [],
              u_registrationTime = now, u_status = active\<rparr> \<and>
      User_insert d user = Inr d0)"
    using assms
    by (auto simp: handleDepositEvent_def Let_def split: option.splits sum.splits prod.splits)
  have wall: "i < length (users d0) \<and> walletAddress (users d0 ! i) = toLowerCase D
      \<and> walletAddress user = toLowerCase D
      \<and> levels d0 = levels d \<and> investments d0 = investments d"
    using doc
    by (auto dest!: findByWallet_SomeD User_insert_Inr simp: toLowerCase_idem nth_append)
  obtain da where da: "addDeposit d0 (i, user) a tx bn now = Inr da"
    using assms doc
    by (auto simp: handleDepositEvent_def Let_def split: option.splits sum.splits prod.splits)
  obtain db where db: "Investment_insert da
        \<lparr>i_userAddress = toLowerCase D, i_amount = a, i_txHash = tx, i_blockNumber = bn,
         i_type = ty, i_status = confirmed, investmentTime = now\<rparr> = Inr db"
    and d1: "d1 = updateLevelInvestments db D a"
    using assms doc da
    by (auto simp: handleDepositEvent_def Let_def split: option.splits sum.splits prod.splits)
  from da show "tx \<noteq> []"
    by (auto simp: addDeposit_def split: if_splits)
  from db show "toLowerCase D \<noteq> []" and "0 \<le> a"
    by (auto simp: Investment_insert_def Let_def toLowerCase_idem split: if_splits)
  have inv_da: "investments da = investments d" and us_da: "users da = (users d0)[i := user\<lparr>deposits := deposits user @
                  [\<lparr>amount = a, txHash = tx, blockNumber = bn, timestamp = now\<rparr>]\<rparr>]"
    using da wall by (auto simp: addDeposit_def User_update_def split: if_splits)
  from db inv_da show "\<forall>v \<in> set (investments d). i_txHash v \<noteq> tx"
    by (auto simp: Investment_insert_def Let_def split: if_splits)
  from db inv_da d1 show "investments d1 = investments d @
           [\<lparr>i_userAddress = toLowerCase D, i_amount = a, i_txHash = tx, i_blockNumber = bn,
             i_type = ty, i_status = confirmed, investmentTime = now\<rparr>]"
    by (auto dest!: Investment_insert_Inr simp: updateLevelInvestments_def each_users toLowerCase_idem)
  have "users d1 = users da"
    using db d1 by (auto dest!: Investment_insert_Inr simp: updateLevelInvestments_def each_users)
  moreover have "users da ! i \<in> set (users da)" and "walletAddress (users da ! i) = toLowerCase D"
    using us_da wall by (auto simp: set_update_memI)
  ultimately show "\<exists>x \<in> set (users d1). walletAddress x = toLowerCase D"
    by metis
qed

lemma deposit_replay_present:
  assumes "\<exists>v \<in> set (investments d). i_txHash v = tx"
    and "\<exists>x \<in> set (users d). walletAddress x = toLowerCase D"
    and "tx \<noteq> []" and "toLowerCase D \<noteq> []" and "0 \<le> a"
  shows "snd (handleDepositEvent d D a ty tx bn now) = [DuplicateKey]"
    and "investments (fst (handleDepositEvent d D a ty tx bn now)) = investments d"
    and "levels (fst (handleDepositEvent d D a ty tx bn now)) = levels d"
proof -
  obtain i u where f: "User_findByWallet d D = Some (i, u)"
    using assms(2) findByWallet_Some_iff [of d D] by auto
  have ad: "addDeposit d (i, u) a tx bn now = Inr (User_update d i
               (u\<lparr>deposits := deposits u @
                  [\<lparr>amount = a, txHash = tx, blockNumber = bn, timestamp = now\<rparr>]\<rparr>))"
    using assms(3) by (simp add: addDeposit_def)
  have ii: "Investment_insert (User_update d i
               (u\<lparr>deposits := deposits u @
                  [\<lparr>amount = a, txHash = tx, blockNumber = bn, timestamp = now\<rparr>]\<rparr>))
        \<lparr>i_userAddress = toLowerCase D, i_amount = a, i_txHash = tx, i_blockNumber = bn,
         i_type = ty, i_status = confirmed, investmentTime = now\<rparr> = Inl DuplicateKey"
    using assms by (auto simp: Investment_insert_def Let_def User_update_def toLowerCase_idem)
  show "snd (handleDepositEvent d D a ty tx bn now) = [DuplicateKey]"
    and "investments (fst (handleDepositEvent d D a ty tx bn now)) = investments d"
    and "levels (fst (handleDepositEvent d D a ty tx bn now)) = levels d"
    by (simp_all add: handleDepositEvent_def f ad ii) (simp_all add: User_update_def)
qed

lemma deposit_replay_general:
  assumes "handleDepositEvent d D a ty tx bn now = (d1, [])"
  shows "snd (handleDepositEvent d1 D a ty tx bn now') = [DuplicateKey]"
    and "investments (fst (handleDepositEvent d1 D a ty tx bn now')) = investments d1"
    and "levels (fst (handleDepositEvent d1 D a ty tx bn now')) = levels d1"
    and "length (filter (\<lambda>v. i_txHash v = tx) (investments d1)) = 1"
proof -
  note f = deposit_success_facts [OF assms]
  have pres: "\<exists>v \<in> set (investments d1). i_txHash v = tx"
    using f(5) by simp
  show "snd (handleDepositEvent d1 D a ty tx bn now') = [DuplicateKey]"
    and "investments (fst (handleDepositEvent d1 D a ty tx bn now')) = investments d1"
    and "levels (fst (handleDepositEvent d1 D a ty tx bn now')) = levels d1"
    using deposit_replay_present [OF pres f(6) f(1) f(2) f(3)] by simp_all
  have "filter (\<lambda>v. i_txHash v = tx) (investments d) = []"
    using f(4) by (simp add: filter_empty_conv)
  then show "length (filter (\<lambda>v. i_txHash v = tx) (investments d1)) = 1"
    using f(5) by simp
qed

lemma new_row_mono: "new_row u ch (Suc i) l \<Longrightarrow> new_row u ch i l"
  by (auto simp: new_row_def)

lemma Level_insert_Inr:
  "Level_insert d l = Inr d' \<Longrightarrow>
   users d' = users d \<and> investments d' = investments d \<and>
   levels d' = levels d @ [l\<lparr>l_userAddress := toLowerCase (l_userAddress l),
                             l_referrerAddress := toLowerCase (l_referrerAddress l)\<rparr>]"
  by (auto simp: Level_insert_def Let_def split: if_splits)

lemma Level_findOne_append:
  assumes "Level_findOne d ua ra lv = Some x" and "levels d' = levels d @ new"
  shows "Level_findOne d' ua ra lv = Some x"
proof -
  let ?P = "\<lambda>l. l_userAddress l = ua \<and> l_referrerAddress l = ra \<and> level l = lv"
  obtain i where i: "findIndex ?P (levels d) = Some i" and x: "x = (i, levels d ! i)"
    using assms(1) by (auto simp: Level_findOne_def split: option.splits)
  have "i < length (levels d)"
    using i by (simp add: findIndex_Some_iff)
  moreover have "findIndex ?P (levels d') = Some i"
    using i assms(2) by (simp add: findIndex_append_Some)
  ultimately show ?thesis
    using x assms(2) by (simp add: Level_findOne_def nth_append)
qed

lemma Level_findOne_inserted:
  "Level_findOne d ua ra lv = None \<Longrightarrow>
   levels d' = levels d @ [l] \<Longrightarrow> l_userAddress l = ua \<Longrightarrow> l_referrerAddress l = ra \<Longrightarrow> level l = lv \<Longrightarrow>
   Level_findOne d' ua ra lv = Some (length (levels d), l)"
  by (auto simp: Level_findOne_def findIndex_snoc_new split: option.splits)

declare createLevelRelationships_loop.simps [simp del]
declare getUplineChain_loop.simps [simp del]

lemma loop_stop:
  "\<not> (i < length ch \<and> i < 21) \<Longrightarrow> createLevelRelationships_loop d u ch i now = (d, [])"
  by (subst createLevelRelationships_loop.simps) auto

lemma loop_extends:
  "users (fst (createLevelRelationships_loop d u ch i now)) = users d \<and>
   investments (fst (createLevelRelationships_loop d u ch i now)) = investments d \<and>
   (\<exists>new. levels (fst (createLevelRelationships_loop d u ch i now)) = levels d @ new \<and>
          (\<forall>l \<in> set new. new_row u ch i l))"
proof (induction d u ch i now rule: createLevelRelationships_loop.induct)
  case (1 d u ch i now)
  show ?case
  proof (cases "i < length ch \<and> i < 21")
    case False
    then show ?thesis by (simp add: loop_stop)
  next
    case True
    show ?thesis
    proof (cases "Level_findOne d (toLowerCase u) (toLowerCase (ch ! i)) (i + 1)")
      case (Some x)
      have eq: "createLevelRelationships_loop d u ch i now = createLevelRelationships_loop d u ch (i + 1) now"
        using True Some by (subst createLevelRelationships_loop.simps) simp
      show ?thesis
        unfolding eq using "1.IH"(2) [OF True refl refl Some] by (auto intro: new_row_mono)
    next
      case None
      let ?row = "\<lparr>l_userAddress = toLowerCase u, l_referrerAddress = toLowerCase (ch ! i),
                    level = i + 1, totalInvestment = 0, totalEarnings = 0,
                    isActive = True, l_registrationTime = now\<rparr>"
      show ?thesis
      proof (cases "Level_insert d ?row")
        case (Inl e)
        have "createLevelRelationships_loop d u ch i now = (d, [e])"
          using True None Inl by (subst createLevelRelationships_loop.simps) simp
        then show ?thesis by simp
      next
        case (Inr d')
        have eq: "createLevelRelationships_loop d u ch i now = createLevelRelationships_loop d' u ch (i + 1) now"
          using True None Inr by (subst createLevelRelationships_loop.simps) simp
        from "1.IH"(1) [OF True refl refl None Inr]
        obtain new where n: "users (fst (createLevelRelationships_loop d' u ch (i + 1) now)) = users d'"
          "investments (fst (createLevelRelationships_loop d' u ch (i + 1) now)) = investments d'"
          "levels (fst (createLevelRelationships_loop d' u ch (i + 1) now)) = levels d' @ new"
          "\<forall>l \<in> set new. new_row u ch (i + 1) l"
          by auto
        have d': "users d' = users d" "investments d' = investments d"
          "levels d' = levels d @ [?row\<lparr>l_userAddress := toLowerCase (toLowerCase u),
                                      l_referrerAddress := toLowerCase (toLowerCase (ch ! i))\<rparr>]"
          using Level_insert_Inr [OF Inr] by simp_all
        have r: "new_row u ch i (?row\<lparr>l_userAddress := toLowerCase (toLowerCase u),
                                      l_referrerAddress := toLowerCase (toLowerCase (ch ! i))\<rparr>)"
          using True by (auto simp: new_row_def toLowerCase_idem)
        have "\<forall>l \<in> set ((?row\<lparr>l_userAddress := toLowerCase (toLowerCase u),
                                      l_referrerAddress := toLowerCase (toLowerCase (ch ! i))\<rparr>) # new). new_row u ch i l"
          using r n(4) by (auto intro: new_row_mono)
        then show ?thesis
          unfolding eq using n d' by (intro conjI exI [of _ "_ # new"]) auto
      qed
    qed
  qed
qed

lemma loop_rerun:
  "createLevelRelationships_loop (fst (createLevelRelationships_loop d u ch i now)) u ch i now' =
     (fst (createLevelRelationships_loop d u ch i now), snd (createLevelRelationships_loop d u ch i now))"
proof (induction d u ch i now rule: createLevelRelationships_loop.induct)
  case (1 d u ch i now)
  show ?case
  proof (cases "i < length ch \<and> i < 21")
    case False
    then show ?thesis by (simp add: loop_stop)
  next
    case True
    show ?thesis
    proof (cases "Level_findOne d (toLowerCase u) (toLowerCase (ch ! i)) (i + 1)")
      case (Some x)
      have eq: "createLevelRelationships_loop d u ch i now = createLevelRelationships_loop d u ch (i + 1) now"
        using True Some by (subst createLevelRelationships_loop.simps) simp
      let ?d1 = "fst (createLevelRelationships_loop d u ch (i + 1) now)"
      obtain new where "levels ?d1 = levels d @ new"
        using loop_extends [of d u ch "i + 1" now] by auto
      then have found: "Level_findOne ?d1 (toLowerCase u) (toLowerCase (ch ! i)) (i + 1) = Some x"
        using Some Level_findOne_append by blast
      have "createLevelRelationships_loop ?d1 u ch i now' = createLevelRelationships_loop ?d1 u ch (i + 1) now'"
        using True found by (subst createLevelRelationships_loop.simps) simp
      then show ?thesis
        unfolding eq using "1.IH"(2) [OF True refl refl Some] by simp
    next
      case None
      let ?row = "\<lambda>t. \<lparr>l_userAddress = toLowerCase u, l_referrerAddress = toLowerCase (ch ! i),
                    level = i + 1, totalInvestment = 0, totalEarnings = 0,
                    isActive = True, l_registrationTime = t\<rparr>"
      show ?thesis
      proof (cases "Level_insert d (?row now)")
        case (Inl e)
        have v: "Level_insert d (?row now') = Inl e"
          using Inl by (auto simp: Level_insert_def Level_valid_def Let_def split: if_splits)
        have "createLevelRelationships_loop d u ch i now = (d, [e])"
          using True None Inl by (subst createLevelRelationships_loop.simps) simp
        moreover have "createLevelRelationships_loop d u ch i now' = (d, [e])"
          using True None v by (subst createLevelRelationships_loop.simps) simp
        ultimately show ?thesis by simp
      next
        case (Inr d')
        have eq: "createLevelRelationships_loop d u ch i now = createLevelRelationships_loop d' u ch (i + 1) now"
          using True None Inr by (subst createLevelRelationships_loop.simps) simp
        let ?d1 = "fst (createLevelRelationships_loop d' u ch (i + 1) now)"
        have d': "levels d' = levels d @ [(?row now)\<lparr>l_userAddress := toLowerCase (toLowerCase u),
                                      l_referrerAddress := toLowerCase (toLowerCase (ch ! i))\<rparr>]"
          using Level_insert_Inr [OF Inr] by simp
        have "Level_findOne d' (toLowerCase u) (toLowerCase (ch ! i)) (i + 1) \<noteq> None"
          using Level_findOne_inserted [OF None d'] by (simp add: toLowerCase_idem)
        then obtain x where x: "Level_findOne d' (toLowerCase u) (toLowerCase (ch ! i)) (i + 1) = Some x"
          by auto
        obtain new where "levels ?d1 = levels d' @ new"
          using loop_extends [of d' u ch "i + 1" now] by auto
        then have found: "Level_findOne ?d1 (toLowerCase u) (toLowerCase (ch ! i)) (i + 1) = Some x"
          using x Level_findOne_append by blast
        have "createLevelRelationships_loop ?d1 u ch i now' = createLevelRelationships_loop ?d1 u ch (i + 1) now'"
          using True found by (subst createLevelRelationships_loop.simps) simp
        then show ?thesis
          unfolding eq using "1.IH"(1) [OF True refl refl None Inr] by simp
      qed
    qed
  qed
qed

lemma getUplineChain_loop_users:
  "users d' = users d \<Longrightarrow>
   getUplineChain_loop d' c i m ch = getUplineChain_loop d c i m ch"
proof (induction d c i m ch rule: getUplineChain_loop.induct)
  case (1 d c i m ch)
  have f: "User_findByWallet d' c = User_findByWallet d c"
    using "1.prems" by (auto simp: User_findByWallet_def split: option.splits)
  show ?case
  proof (cases "i < m")
    case False
    then show ?thesis
      by (simp add: getUplineChain_loop.simps [of d' c i m ch] getUplineChain_loop.simps [of d c i m ch])
  next
    case True
    show ?thesis
    proof (cases "User_findByWallet d c")
      case None
      then show ?thesis
        using f by (simp add: getUplineChain_loop.simps [of d' c i m ch] getUplineChain_loop.simps [of d c i m ch])
    next
      case (Some doc)
      obtain k user where doc: "doc = (k, user)" by (cases doc)
      show ?thesis
      proof (cases "u_referrerAddress user")
        case None
        then show ?thesis
          using f Some doc
          by (simp add: getUplineChain_loop.simps [of d' c i m ch] getUplineChain_loop.simps [of d c i m ch])
      next
        case (Some r)
        show ?thesis
        proof (cases "r = []")
          case True
          then show ?thesis
            using f \<open>User_findByWallet d c = Some doc\<close> doc Some
            by (simp add: getUplineChain_loop.simps [of d' c i m ch] getUplineChain_loop.simps [of d c i m ch])
        next
          case False
          have "getUplineChain_loop d' r (i + 1) m (ch @ [r]) = getUplineChain_loop d r (i + 1) m (ch @ [r])"
            using "1.IH" [OF \<open>i < m\<close> \<open>User_findByWallet d c = Some doc\<close> doc [symmetric] Some False "1.prems"] .
          then show ?thesis
            using f \<open>User_findByWallet d c = Some doc\<close> doc Some False \<open>i < m\<close>
            by (simp add: getUplineChain_loop.simps [of d' c i m ch] getUplineChain_loop.simps [of d c i m ch])
        qed
      qed
    qed
  qed
qed

lemma scenario_A_zero:
  "scenario_A zero_address =
     \<lparr>users =
        [\<lparr>walletAddress = ''0xr'', u_referrerAddress = Some zero_address, deposits = [],
           u_registrationTime = 1, u_status = active\<rparr>,
         \<lparr>walletAddress = ''0xu1'', u_referrerAddress = Some ''0xr'', deposits = [],
           u_registrationTime = 2, u_status = active\<rparr>,
         \<lparr>walletAddress = ''0xu2'', u_referrerAddress = Some ''0xu1'', deposits = [],
           u_registrationTime = 3, u_status = active\<rparr>],
      levels =
        [\<lparr>l_userAddress = ''0xu1'', l_referrerAddress = zero_address, level = 1,
           totalInvestment = 0, totalEarnings = 0, isActive = True, l_registrationTime = 2\<rparr>,
         \<lparr>l_userAddress = ''0xu2'', l_referrerAddress = ''0xr'', level = 1,
           totalInvestment = 0, totalEarnings = 0, isActive = True, l_registrationTime = 3\<rparr>,
         \<lparr>l_userAddress = ''0xu2'', l_referrerAddress = zero_address, level = 2,
           totalInvestment = 0, totalEarnings = 0, isActive = True, l_registrationTime = 3\<rparr>],
      investments = []\<rparr>"
  unfolding scenario_A_def zero_address_def by code_simp

lemma grows_refl: "grows d d"
  by (auto simp: grows_def)

lemma grows_levels_eq: "levels d' = levels d \<Longrightarrow> grows d d'"
  by (auto simp: grows_def)

lemma grows_trans: "grows a b \<Longrightarrow> grows b c \<Longrightarrow> grows a c"
  unfolding grows_def level_in_range_def
  by (smt (verit) le_trans less_le_trans not_le)

lemma grows_append:
  "levels d' = levels d @ new \<Longrightarrow> \<forall>l \<in> set new. level_in_range l \<Longrightarrow> grows d d'"
  by (auto simp: grows_def nth_append)

lemma grows_map:
  "levels d' = map f (levels d) \<Longrightarrow> (\<And>l. level (f l) = level l) \<Longrightarrow> grows d d'"
  by (auto simp: grows_def)

lemma Level_insert_grows: "Level_insert d l = Inr d' \<Longrightarrow> grows d d'"
  by (rule grows_append [where new = "[l\<lparr>l_userAddress := toLowerCase (l_userAddress l),
                             l_referrerAddress := toLowerCase (l_referrerAddress l)\<rparr>]"])
     (auto simp: Level_insert_def Let_def Level_valid_def level_in_range_def split: if_splits)

lemma new_row_in_range: "new_row u ch i l \<Longrightarrow> level_in_range l"
  by (auto simp: new_row_def level_in_range_def)

lemma loop_grows: "grows d (fst (createLevelRelationships_loop d u ch i now))"
  using loop_extends [of d u ch i now] by (auto intro!: grows_append dest: new_row_in_range)

lemma handleRegistrationEvent_grows: "grows d (fst (handleRegistrationEvent d u r now))"
proof -
  have "\<And>d1. levels d1 = levels d \<Longrightarrow> grows d (fst (createLevelRelationships d1 u r now))"
    unfolding createLevelRelationships_def
    by (rule grows_trans [OF grows_levels_eq loop_grows])
  then show ?thesis
    by (auto simp: handleRegistrationEvent_def User_update_def grows_refl
        split: option.splits sum.splits dest!: User_insert_Inr)
qed

lemma handleDepositEvent_levels:
  "levels (fst (handleDepositEvent d D a ty tx bn now)) =
     (if snd (handleDepositEvent d D a ty tx bn now) = []
      then map (\<lambda>l. if l_userAddress l = toLowerCase D \<and> isActive l
                     then l\<lparr>totalInvestment := totalInvestment l + a\<rparr> else l) (levels d)
      else levels d)"
  by (auto simp: handleDepositEvent_def updateLevelInvestments_levels addInvestment_def Let_def
       split: option.splits sum.splits prod.splits
       dest!: User_insert_Inr addDeposit_Inr Investment_insert_Inr)

lemma handleDepositEvent_grows: "grows d (fst (handleDepositEvent d D a ty tx bn now))"
proof (cases "snd (handleDepositEvent d D a ty tx bn now) = []")
  case True
  show ?thesis
    by (rule grows_map [where f = "\<lambda>l. if l_userAddress l = toLowerCase D \<and> isActive l
                     then l\<lparr>totalInvestment := totalInvestment l + a\<rparr> else l"])
       (simp_all add: handleDepositEvent_levels True)
next
  case False
  then show ?thesis
    by (simp add: handleDepositEvent_levels grows_levels_eq)
qed

lemma updateLevelEarnings_grows: "grows d (fst (updateLevelEarnings d b s a lv))"
  by (auto simp: updateLevelEarnings_def Level_findOne_active_def Level_update_def addEarnings_def
        grows_def findIndex_Some_iff nth_list_update split: option.splits)

lemma createDeeperLevels_grows:
  "grows d (fst (createDeeperLevels d ua orig lv))"
  "grows d (fst (createDeeperLevels_each d us orig lv))"
proof (induction d ua orig lv and d us orig lv rule: createDeeperLevels_createDeeperLevels_each.induct)
  case (1 d userAddress originalReferrer currentLevel)
  then show ?case by (simp add: grows_refl)
next
  case (2 d originalReferrer currentLevel)
  then show ?case by (simp add: grows_refl)
next
  case (3 d referral rest originalReferrer currentLevel)
  let ?step = "case Level_findOne d (walletAddress referral) originalReferrer currentLevel of
              Some existingLevel \<Rightarrow> Inr d
            | None \<Rightarrow>
                Level_insert d
                  \<lparr>l_userAddress = walletAddress referral, l_referrerAddress = originalReferrer,
                   level = currentLevel, totalInvestment = 0, totalEarnings = 0,
                   isActive = True, l_registrationTime = u_registrationTime referral\<rparr>"
  show ?case
  proof (cases ?step)
    case (Inl e)
    then show ?thesis by (simp add: grows_refl)
  next
    case (Inr d1)
    have g1: "grows d d1"
      using Inr by (auto split: option.splits simp: grows_refl dest: Level_insert_grows)
    have g2: "grows d1 (fst (createDeeperLevels d1 (walletAddress referral) originalReferrer (currentLevel + 1)))"
      using "3.IH"(1) [OF Inr] .
    show ?thesis
    proof (cases "createDeeperLevels d1 (walletAddress referral) originalReferrer (currentLevel + 1)")
      case (Pair d2 r)
      have g12: "grows d d2" using g1 g2 Pair by (auto intro: grows_trans)
      show ?thesis
      proof (cases r)
        case None
        have "grows d2 (fst (createDeeperLevels_each d2 rest originalReferrer currentLevel))"
          using "3.IH"(2) [OF Inr Pair [symmetric] None] .
        then show ?thesis
          using Inr Pair None g12 by (auto intro: grows_trans)
      next
        case (Some e)
        then show ?thesis using Inr Pair g12 by simp
      qed
    qed
  qed
qed

lemma setup_level1_each_grows: "grows d (fst (setup_level1_each d us w))"
proof (induction d us w rule: setup_level1_each.induct)
  case (1 d w)
  then show ?case by (simp add: grows_refl)
next
  case (2 d referral rest w)
  show ?case
  proof (cases "Level_findOne d (walletAddress referral) w 1")
    case (Some x)
    then show ?thesis using "2.IH"(2) [OF Some] by simp
  next
    case None
    let ?row = "\<lparr>l_userAddress = walletAddress referral, l_referrerAddress = w,
                   level = 1, totalInvestment = 0, totalEarnings = 0,
                   isActive = True, l_registrationTime = u_registrationTime referral\<rparr>"
    show ?thesis
    proof (cases "Level_insert d ?row")
      case (Inl e)
      then show ?thesis using None by (simp add: grows_refl)
    next
      case (Inr d')
      have "grows d' (fst (setup_level1_each d' rest w))"
        using "2.IH"(1) [OF None Inr] .
      then have "grows d (fst (setup_level1_each d' rest w))"
        using Level_insert_grows [OF Inr] by (auto intro: grows_trans)
      then show ?thesis using None Inr by simp
    qed
  qed
qed

lemma setup_deeper_each_grows: "grows d (fst (setup_deeper_each d us w))"
proof (induction d us w rule: setup_deeper_each.induct)
  case (1 d w)
  then show ?case by (simp add: grows_refl)
next
  case (2 d referral rest w)
  show ?case
  proof (cases "createDeeperLevels d (walletAddress referral) w 2")
    case (Pair d' r)
    have g: "grows d d'"
      using createDeeperLevels_grows(1) [of d "walletAddress referral" w 2] Pair by simp
    show ?thesis
    proof (cases r)
      case None
      then show ?thesis
        using Pair g "2.IH" [OF Pair [symmetric] None] by (auto intro: grows_trans)
    next
      case (Some e)
      then show ?thesis using Pair g by simp
    qed
  qed
qed

lemma setup_levels_grows: "grows d (fst (setup_levels d w))"
proof (cases "User_findByWallet d (toLowerCase w)")
  case None
  then show ?thesis by (simp add: setup_levels_def grows_refl)
next
  case (Some user)
  let ?refs = "User_find_referrals d (toLowerCase w)"
  obtain d1 r1 where s1: "setup_level1_each d ?refs (toLowerCase w) = (d1, r1)"
    by (cases "setup_level1_each d ?refs (toLowerCase w)")
  obtain d2 r2 where s2: "setup_deeper_each d1 ?refs (toLowerCase w) = (d2, r2)"
    by (cases "setup_deeper_each d1 ?refs (toLowerCase w)")
  have g1: "grows d d1"
    using setup_level1_each_grows [of d ?refs "toLowerCase w"] s1 by simp
  have g2: "grows d1 d2"
    using setup_deeper_each_grows [of d1 ?refs "toLowerCase w"] s2 by simp
  have g12: "grows d d2" using g1 g2 by (rule grows_trans)
  show ?thesis
    using Some s1 s2 g1 g12
    by (auto simp: setup_levels_def Let_def split: option.splits)
qed

lemma apply_operation_grows: "grows d (apply_operation d op)"
  by (cases op)
     (simp_all add: handleRegistrationEvent_grows handleDepositEvent_grows
        handleTransactionEvent_def updateLevelEarnings_grows setup_levels_grows)

lemma run_grows: "grows d (run d ops)"
  unfolding run_def
proof (induction ops arbitrary: d)
  case Nil
  then show ?case by (simp add: grows_refl)
next
  case (Cons op ops)
  show ?case
    using grows_trans [OF apply_operation_grows [of d op] Cons.IH [of "apply_operation d op"]]
    by simp
qed

declare getUsersAtLevel.simps [simp del]
declare getUsersAtLevel_stats.simps [simp del]
declare getUsersAtLevel_calls.simps [simp del]

lemma descends_snoc:
  "descends d r (Suc (Suc n)) u \<longleftrightarrow>
   u_status u = active \<and>
   (\<exists>p \<in> set (users d). u_referrerAddress u = Some (toLowerCase (walletAddress p)) \<and>
                          descends d r (Suc n) p)"
proof (induction n arbitrary: r)
  case 0
  show ?case by auto
next
  case (Suc n)
  have "descends d r (Suc (Suc (Suc n))) u \<longleftrightarrow>
        (\<exists>v \<in> set (users d). u_status v = active \<and> u_referrerAddress v = Some r \<and>
            descends d (toLowerCase (walletAddress v)) (Suc (Suc n)) u)"
    by simp
  also have "\<dots> \<longleftrightarrow>
        (\<exists>v \<in> set (users d). u_status v = active \<and> u_referrerAddress v = Some r \<and>
            u_status u = active \<and>
            (\<exists>p \<in> set (users d). u_referrerAddress u = Some (toLowerCase (walletAddress p)) \<and>
                 descends d (toLowerCase (walletAddress v)) (Suc n) p))"
    using Suc.IH by simp
  also have "\<dots> \<longleftrightarrow>
        u_status u = active \<and>
        (\<exists>p \<in> set (users d). u_referrerAddress u = Some (toLowerCase (walletAddress p)) \<and>
            (\<exists>v \<in> set (users d). u_status v = active \<and> u_referrerAddress v = Some r \<and>
                 descends d (toLowerCase (walletAddress v)) (Suc n) p))"
    by blast
  also have "\<dots> \<longleftrightarrow>
        u_status u = active \<and>
        (\<exists>p \<in> set (users d). u_referrerAddress u = Some (toLowerCase (walletAddress p)) \<and>
            descends d r (Suc (Suc n)) p)"
    by simp
  finally show ?case .
qed

lemma descends_at_level: "descends d r n u \<longleftrightarrow> at_level d u n r"
proof (induction d u n r rule: at_level.induct)
  case (1 d u r)
  show ?case by simp
next
  case (2 d u r)
  show ?case by simp
next
  case (3 d u n r)
  show ?case
    unfolding descends_snoc using "3.IH" by simp
qed

lemma getUsersAtLevel_set:
  "c \<le> t \<Longrightarrow> t \<le> 21 \<Longrightarrow>
   set (getUsersAtLevel d r t c) =
     level_user d t ` {u \<in> set (users d). descends d (toLowerCase r) (Suc (t - c)) u}"
proof (induction d r t c rule: getUsersAtLevel.induct)
  case (1 d r t c)
  have c21: "\<not> c > 21" using "1.prems" by simp
  show ?case
  proof (cases "c = t")
    case True
    then show ?thesis
      using c21 by (subst getUsersAtLevel.simps) (auto simp: User_find_referrals_def)
  next
    case False
    then have lt: "c < t" using "1.prems" by simp
    then have S: "Suc (t - c) = Suc (Suc (t - (c + 1)))" by simp
    have IH: "\<And>v. v \<in> set (User_find_referrals d (toLowerCase r)) \<Longrightarrow>
        set (getUsersAtLevel d (walletAddress v) t (c + 1)) =
          level_user d t ` {u \<in> set (users d).
             descends d (toLowerCase (walletAddress v)) (Suc (t - (c + 1))) u}"
      using "1.IH" [OF c21 refl False] lt "1.prems" by simp
    have "set (getUsersAtLevel d r t c) =
          (\<Union>v \<in> set (User_find_referrals d (toLowerCase r)).
              set (getUsersAtLevel d (walletAddress v) t (c + 1)))"
      using c21 False by (subst getUsersAtLevel.simps) simp
    also have "\<dots> = (\<Union>v \<in> set (User_find_referrals d (toLowerCase r)).
          level_user d t ` {u \<in> set (users d).
             descends d (toLowerCase (walletAddress v)) (Suc (t - (c + 1))) u})"
      using IH by simp
    also have "\<dots> = level_user d t ` {u \<in> set (users d). descends d (toLowerCase r) (Suc (t - c)) u}"
      unfolding S by (auto simp: User_find_referrals_def)
    finally show ?thesis .
  qed
qed

lemma getUsersAtLevel_stats_set:
  "c \<le> t \<Longrightarrow> t \<le> 21 \<Longrightarrow>
   set (getUsersAtLevel_stats d r t c) =
     stats_user d ` {u \<in> set (users d). descends d (toLowerCase r) (Suc (t - c)) u}"
proof (induction d r t c rule: getUsersAtLevel_stats.induct)
  case (1 d r t c)
  have c21: "\<not> c > 21" using "1.prems" by simp
  show ?case
  proof (cases "c = t")
    case True
    then show ?thesis
      using c21 by (subst getUsersAtLevel_stats.simps) (auto simp: User_find_referrals_def)
  next
    case False
    then have lt: "c < t" using "1.prems" by simp
    then have S: "Suc (t - c) = Suc (Suc (t - (c + 1)))" by simp
    have IH: "\<And>v. v \<in> set (User_find_referrals d (toLowerCase r)) \<Longrightarrow>
        set (getUsersAtLevel_stats d (walletAddress v) t (c + 1)) =
          stats_user d ` {u \<in> set (users d).
             descends d (toLowerCase (walletAddress v)) (Suc (t - (c + 1))) u}"
      using "1.IH" [OF c21 refl False] lt "1.prems" by simp
    have "set (getUsersAtLevel_stats d r t c) =
          (\<Union>v \<in> set (User_find_referrals d (toLowerCase r)).
              set (getUsersAtLevel_stats d (walletAddress v) t (c + 1)))"
      using c21 False by (subst getUsersAtLevel_stats.simps) simp
    also have "\<dots> = (\<Union>v \<in> set (User_find_referrals d (toLowerCase r)).
          stats_user d ` {u \<in> set (users d).
             descends d (toLowerCase (walletAddress v)) (Suc (t - (c + 1))) u})"
      using IH by simp
    also have "\<dots> = stats_user d ` {u \<in> set (users d). descends d (toLowerCase r) (Suc (t - c)) u}"
      unfolding S by (auto simp: User_find_referrals_def)
    finally show ?thesis .
  qed
qed

lemma getUsersAtLevel_calls_bound:
  "c \<le> t \<Longrightarrow> list_all (\<lambda>k. k \<le> t) (getUsersAtLevel_calls d r t c)"
proof (induction d r t c rule: getUsersAtLevel_calls.induct)
  case (1 d r t c)
  show ?case
  proof (cases "c > 21 \<or> c = t")
    case True
    then show ?thesis
      using "1.prems" by (subst getUsersAtLevel_calls.simps) auto
  next
    case False
    then have IH: "\<And>v. v \<in> set (User_find_referrals d (toLowerCase r)) \<Longrightarrow>
        list_all (\<lambda>k. k \<le> t) (getUsersAtLevel_calls d (walletAddress v) t (c + 1))"
      using "1.IH" [OF _ refl] "1.prems" by simp
    show ?thesis
      using False "1.prems" IH
      by (subst getUsersAtLevel_calls.simps) (auto simp: list_all_iff)
  qed
qed

lemma foldl_add_sum_list:
  "foldl (\<lambda>sum iv. sum + f iv) (a::real) xs = a + sum_list (map f xs)"
  by (induction xs arbitrary: a) simp_all

lemma userInvestment_sum_list:
  "userInvestment d ua = sum_list (map i_amount (filter (\<lambda>iv. i_userAddress iv = ua) (investments d)))"
  by (simp add: userInvestment_def Investment_find_by_user_def foldl_add_sum_list)














lemma generateKey_example: "generateKey ''referral_stats'' [''0xabc''] = ''referral_stats:0xabc''"
  by (simp add: generateKey_def)




lemma SimpleCache_set_get:
  "now' \<le> now + (case t of None \<Rightarrow> ttl c | Some n \<Rightarrow> if n = 0 then ttl c else n) \<Longrightarrow>
   fst (SimpleCache_get (SimpleCache_set c now key v t) now' key) = Some v"
  by (simp add: SimpleCache_get_def SimpleCache_set_def)







section \<open>Properties\<close>

text \<open>
  C1. Registration is claimed to create, for position i of the chain
  [referrer, referrer's referrer, ...], the row (new user, chain[i], i+1), so that
  Scenario A yields (U1,R,1), (U2,U1,1), (U2,R,2). \<open>createLevelRelationships\<close> hands the
  referrer to \<open>getUplineChain\<close>, whose first element is the referrer's own referrer:
  the chain starts one hop too high. In Scenario A the only row created is (U2,R,1)
  when the root has the empty referrer; with the zero address as the root's referrer
  the rows are (U1,0x0,1), (U2,R,1), (U2,0x0,2). In neither run is there a row
  (U1,R,1) or (U2,U1,1).
\<close>

theorem scenario_A_rows:
  "map level_key (levels (scenario_A [])) = [(''0xu2'', ''0xr'', 1)] \<and>
   map level_key (levels (scenario_A ''0x0000000000000000000000000000000000000000'')) =
     [(''0xu1'', ''0x0000000000000000000000000000000000000000'', 1),
      (''0xu2'', ''0xr'', 1),
      (''0xu2'', ''0x0000000000000000000000000000000000000000'', 2)]"
  unfolding scenario_A_def by code_simp

text \<open>
  C2. Processing the same deposit event (same transaction hash) a second time is
  claimed to leave the whole state unchanged, the depositor's \<open>deposits\<close> list
  included, and to signal a conflict. \<open>handleDepositEvent\<close> pushes the deposit onto
  the user before it saves the ledger entry, so on the replay the unique index on
  \<open>txHash\<close> rejects the ledger entry only after the user's list has grown: after the
  second processing the list holds the hash twice, while the ledger holds it once,
  the level rows are as before and the duplicate-key error is caught and logged
  (lemma \<open>deposit_replay_general\<close> shows the last three for every store).
\<close>

theorem deposit_replay_extends_deposits:
  "snd replay_once = [] \<and> snd replay_twice = [DuplicateKey] \<and>
   map txHash (deposits (users (fst replay_once) ! 2)) = [''0xt1''] \<and>
   map txHash (deposits (users (fst replay_twice) ! 2)) = [''0xt1'', ''0xt1''] \<and>
   map i_txHash (investments (fst replay_twice)) = [''0xt1''] \<and>
   levels (fst replay_twice) = levels (fst replay_once)"
  unfolding replay_twice_def replay_once_def scenario_A_def by code_simp

text \<open>
  C3 (as the code has it). A deposit of amount a by depositor D that is processed
  without error adds a to \<open>totalInvestment\<close> of every active level row whose
  descendant is D and leaves every other row, and every other field, as it was; no
  row is added or removed. A deposit that logs an error changes no level row.
  Rows with \<open>isActive = False\<close> are not touched: \<open>updateLevelInvestments\<close> queries with
  \<open>isActive: true\<close>.
\<close>

theorem deposit_adds_to_active_rows:
  "levels (fst (handleDepositEvent d D a ty tx bn now)) =
     (if snd (handleDepositEvent d D a ty tx bn now) = []
      then map (\<lambda>l. if l_userAddress l = toLowerCase D \<and> isActive l
                     then l\<lparr>totalInvestment := totalInvestment l + a\<rparr> else l) (levels d)
      else levels d)"
  by (auto simp: handleDepositEvent_def updateLevelInvestments_levels addInvestment_def Let_def
       split: option.splits sum.splits prod.splits
       dest!: User_insert_Inr addDeposit_Inr Investment_insert_Inr)

theorem deposit_adds_to_active_rows_witness:
  "levels (fst (handleDepositEvent (scenario_A []) ''0xU2'' 100 USDT ''0xt1'' 7 9)) =
     [\<lparr>l_userAddress = ''0xu2'', l_referrerAddress = ''0xr'', level = 1,
        totalInvestment = 100, totalEarnings = 0, isActive = True, l_registrationTime = 3\<rparr>]"
proof -
  have s: "snd (handleDepositEvent (scenario_A []) ''0xU2'' 100 USDT ''0xt1'' 7 9) = []"
    unfolding scenario_A_def by code_simp
  have l: "levels (scenario_A []) =
     [\<lparr>l_userAddress = ''0xu2'', l_referrerAddress = ''0xr'', level = 1,
        totalInvestment = 0, totalEarnings = 0, isActive = True, l_registrationTime = 3\<rparr>]"
    unfolding scenario_A_def by code_simp
  have lc: "toLowerCase ''0xU2'' = ''0xu2''" by code_simp
  show ?thesis
    using deposit_adds_to_active_rows [of "scenario_A []" "''0xU2''" 100 USDT "''0xt1''" 7 9]
    by (simp add: s l lc)
qed

text \<open>The claim as stated fails on an inactive row of the depositor: the deposit is
  processed without error and the row's total stays what it was.\<close>

theorem deposit_skips_inactive_row:
  "l_userAddress (levels inactive_row_db ! 0) = ''0xd'' \<and>
   snd (handleDepositEvent inactive_row_db ''0xd'' 100 USDT ''0xt1'' 7 9) = [] \<and>
   totalInvestment (levels (fst (handleDepositEvent inactive_row_db ''0xd'' 100 USDT ''0xt1'' 7 9)) ! 0)
     \<noteq> totalInvestment (levels inactive_row_db ! 0) + 100"
  unfolding inactive_row_db_def by code_simp

text \<open>
  C4 (as the code has it). A commission (beneficiary B, source S, amount a, level L)
  adds a to \<open>totalEarnings\<close> of the first active level row keyed
  (descendant S, ancestor B, level L) and changes nothing else; when no active row
  has that key the store is unchanged, no row is created and no error is thrown or
  logged. A row with the key that is inactive counts as absent:
  \<open>updateLevelEarnings\<close> queries with \<open>isActive: true\<close>.
\<close>

theorem commission_first_active_row:
  "(i < length (levels d) \<and>
    (l_userAddress (levels d ! i) = toLowerCase S \<and> l_referrerAddress (levels d ! i) = toLowerCase B \<and>
     level (levels d ! i) = L \<and> isActive (levels d ! i)) \<and>
    (\<forall>j < i. \<not> (l_userAddress (levels d ! j) = toLowerCase S \<and>
                 l_referrerAddress (levels d ! j) = toLowerCase B \<and>
                 level (levels d ! j) = L \<and> isActive (levels d ! j)))
    \<longrightarrow> updateLevelEarnings d B S a L =
          (d\<lparr>levels := (levels d)[i := (levels d ! i)\<lparr>totalEarnings := totalEarnings (levels d ! i) + a\<rparr>]\<rparr>, []))
   \<and>
   ((\<forall>l \<in> set (levels d). \<not> (l_userAddress l = toLowerCase S \<and> l_referrerAddress l = toLowerCase B \<and>
                               level l = L \<and> isActive l))
    \<longrightarrow> updateLevelEarnings d B S a L = (d, []))"
proof (intro conjI impI)
  let ?P = "\<lambda>l. l_userAddress l = toLowerCase S \<and> l_referrerAddress l = toLowerCase B \<and>
                 level l = L \<and> isActive l"
  assume "i < length (levels d) \<and> ?P (levels d ! i) \<and> (\<forall>j < i. \<not> ?P (levels d ! j))"
  then have "findIndex ?P (levels d) = Some i"
    by (simp add: findIndex_Some_iff)
  then show "updateLevelEarnings d B S a L =
          (d\<lparr>levels := (levels d)[i := (levels d ! i)\<lparr>totalEarnings := totalEarnings (levels d ! i) + a\<rparr>]\<rparr>, [])"
    by (simp add: updateLevelEarnings_def Level_findOne_active_def Level_update_def addEarnings_def)
next
  let ?P = "\<lambda>l. l_userAddress l = toLowerCase S \<and> l_referrerAddress l = toLowerCase B \<and>
                 level l = L \<and> isActive l"
  assume "\<forall>l \<in> set (levels d). \<not> ?P l"
  then have "findIndex ?P (levels d) = None"
    by (simp add: findIndex_None_iff)
  then show "updateLevelEarnings d B S a L = (d, [])"
    by (simp add: updateLevelEarnings_def Level_findOne_active_def)
qed

theorem commission_first_active_row_witness:
  "updateLevelEarnings (scenario_A []) ''0xR'' ''0xU2'' 5 1 =
     ((scenario_A [])\<lparr>levels :=
        [\<lparr>l_userAddress = ''0xu2'', l_referrerAddress = ''0xr'', level = 1,
          totalInvestment = 0, totalEarnings = 5, isActive = True, l_registrationTime = 3\<rparr>]\<rparr>, []) \<and>
   updateLevelEarnings (scenario_A []) ''0xR'' ''0xU1'' 5 1 = (scenario_A [], [])"
proof -
  have l: "levels (scenario_A []) =
     [\<lparr>l_userAddress = ''0xu2'', l_referrerAddress = ''0xr'', level = 1,
        totalInvestment = 0, totalEarnings = 0, isActive = True, l_registrationTime = 3\<rparr>]"
    unfolding scenario_A_def by code_simp
  have lc: "toLowerCase ''0xU2'' = ''0xu2''" "toLowerCase ''0xR'' = ''0xr''"
    "toLowerCase ''0xU1'' = ''0xu1''"
    by code_simp+
  show ?thesis
    using commission_first_active_row [of 0 "scenario_A []" "''0xU2''" "''0xR''" 1 5]
      commission_first_active_row [of 0 "scenario_A []" "''0xU1''" "''0xR''" 1 5]
    by (simp add: l lc)
qed

text \<open>The claim as stated fails on an inactive row: the row keyed (0xd, 0xa, 1) exists
  and the commission leaves the store as it was.\<close>

theorem commission_skips_inactive_row:
  "level_key (levels inactive_row_db ! 0) = (''0xd'', ''0xa'', 1) \<and>
   updateLevelEarnings inactive_row_db ''0xa'' ''0xd'' 5 1 = (inactive_row_db, [])"
  unfolding inactive_row_db_def by code_simp

text \<open>
  C6. \<open>createLevelRelationships\<close> is idempotent: running it a second time for the same
  user and referrer, right after the first run, gives the store the first run left:
  no further row, every total as it was. This holds for every store, also when a
  \<open>save()\<close> of the first run failed.
\<close>

theorem createLevelRelationships_idempotent:
  "fst (createLevelRelationships (fst (createLevelRelationships d u r now)) u r now') =
   fst (createLevelRelationships d u r now)"
proof -
  let ?ch = "getUplineChain d r 21"
  let ?d1 = "fst (createLevelRelationships_loop d u ?ch 0 now)"
  have "users ?d1 = users d"
    using loop_extends [of d u ?ch 0 now] by simp
  then have "getUplineChain ?d1 r 21 = ?ch"
    unfolding getUplineChain_def by (rule getUplineChain_loop_users)
  then show ?thesis
    by (simp add: createLevelRelationships_def loop_rerun)
qed

theorem createLevelRelationships_idempotent_witness:
  "fst (createLevelRelationships
          (fst (createLevelRelationships (scenario_A zero_address) ''0xNew'' ''0xU2'' 5))
          ''0xNew'' ''0xU2'' 6) =
   fst (createLevelRelationships (scenario_A zero_address) ''0xNew'' ''0xU2'' 5) \<and>
   map level_key (drop 3 (levels
     (fst (createLevelRelationships (scenario_A zero_address) ''0xNew'' ''0xU2'' 5)))) =
     [(''0xnew'', ''0xu1'', 1), (''0xnew'', ''0xr'', 2), (''0xnew'', zero_address, 3)]"
proof -
  have n: "map level_key (drop 3 (levels
     (fst (createLevelRelationships (scenario_A zero_address) ''0xNew'' ''0xU2'' 5)))) =
     [(''0xnew'', ''0xu1'', 1), (''0xnew'', ''0xr'', 2), (''0xnew'', zero_address, 3)]"
    unfolding scenario_A_zero zero_address_def by code_simp
  from createLevelRelationships_idempotent [of "scenario_A zero_address" "''0xNew''" "''0xU2''" 5 6] n
  show ?thesis by (rule conjI)
qed

text \<open>
  C10. A registration event for an address that is already in the User Directory
  overwrites that user's \<open>referrerAddress\<close> with the (lowercased) referrer of the
  event and then only appends level rows for the chain of the new referrer: every row
  that was in the store is still there, at its position and unchanged (none deleted,
  none deactivated), the ledger is untouched, and each added row is a row of this
  user for a position of the new chain.
\<close>

theorem reregistration_keeps_rows:
  assumes "User_findByWallet d u = Some (i, usr)"
  shows "users (fst (handleRegistrationEvent d u r now)) =
           (users d)[i := usr\<lparr>u_referrerAddress := Some (toLowerCase r)\<rparr>] \<and>
         investments (fst (handleRegistrationEvent d u r now)) = investments d \<and>
         take (length (levels d)) (levels (fst (handleRegistrationEvent d u r now))) = levels d \<and>
         (\<forall>l \<in> set (drop (length (levels d)) (levels (fst (handleRegistrationEvent d u r now)))).
            new_row u (getUplineChain
                         (User_update d i (usr\<lparr>u_referrerAddress := Some (toLowerCase r)\<rparr>)) r 21) 0 l)"
proof -
  let ?d1 = "User_update d i (usr\<lparr>u_referrerAddress := Some (toLowerCase r)\<rparr>)"
  let ?ch = "getUplineChain ?d1 r 21"
  have h: "handleRegistrationEvent d u r now = createLevelRelationships_loop ?d1 u ?ch 0 now"
    using assms by (simp add: handleRegistrationEvent_def createLevelRelationships_def)
  obtain new where n: "users (fst (createLevelRelationships_loop ?d1 u ?ch 0 now)) = users ?d1"
    "investments (fst (createLevelRelationships_loop ?d1 u ?ch 0 now)) = investments ?d1"
    "levels (fst (createLevelRelationships_loop ?d1 u ?ch 0 now)) = levels ?d1 @ new"
    "\<forall>l \<in> set new. new_row u ?ch 0 l"
    using loop_extends [of ?d1 u ?ch 0 now] by auto
  have d1: "users ?d1 = (users d)[i := usr\<lparr>u_referrerAddress := Some (toLowerCase r)\<rparr>]"
    "investments ?d1 = investments d" "levels ?d1 = levels d"
    by (simp_all add: User_update_def)
  show ?thesis
    unfolding h using n d1 by simp
qed

theorem reregistration_keeps_rows_witness:
  "User_findByWallet (scenario_A zero_address) ''0xU2'' =
     Some (2, \<lparr>walletAddress = ''0xu2'', u_referrerAddress = Some ''0xu1'', deposits = [],
                u_registrationTime = 3, u_status = active\<rparr>) \<and>
   users (fst (handleRegistrationEvent (scenario_A zero_address) ''0xU2'' ''0xR'' 4)) =
      (users (scenario_A zero_address))
        [2 := \<lparr>walletAddress = ''0xu2'', u_referrerAddress = Some ''0xu1'', deposits = [],
                u_registrationTime = 3, u_status = active\<rparr>
              \<lparr>u_referrerAddress := Some (toLowerCase ''0xR'')\<rparr>] \<and>
   investments (fst (handleRegistrationEvent (scenario_A zero_address) ''0xU2'' ''0xR'' 4)) =
      investments (scenario_A zero_address) \<and>
   take (length (levels (scenario_A zero_address)))
      (levels (fst (handleRegistrationEvent (scenario_A zero_address) ''0xU2'' ''0xR'' 4))) =
      levels (scenario_A zero_address) \<and>
   map level_key (drop 3 (levels (fst (handleRegistrationEvent (scenario_A zero_address) ''0xU2'' ''0xR'' 4)))) =
     [(''0xu2'', zero_address, 1)]"
proof -
  have f: "User_findByWallet (scenario_A zero_address) ''0xU2'' =
     Some (2, \<lparr>walletAddress = ''0xu2'', u_referrerAddress = Some ''0xu1'', deposits = [],
                u_registrationTime = 3, u_status = active\<rparr>)"
    unfolding scenario_A_zero zero_address_def by code_simp
  have n: "map level_key (drop 3 (levels (fst (handleRegistrationEvent (scenario_A zero_address) ''0xU2'' ''0xR'' 4)))) =
     [(''0xu2'', zero_address, 1)]"
    unfolding scenario_A_zero zero_address_def by code_simp
  from f reregistration_keeps_rows [OF f, of "''0xR''" 4] n show ?thesis
    by (intro conjI) blast+
qed

text \<open>
  C7. Bounded depth: after any sequence of registration, deposit, commission and
  setup-levels operations, started in any store, every level row that the sequence
  created has its level in 1..21, whatever the length of the referral chains; and if
  the rows of the starting store are in range, so are all rows afterwards.
\<close>

theorem created_levels_in_range:
  "list_all level_in_range (drop (length (levels d)) (levels (run d ops))) \<and>
   (list_all level_in_range (levels d) \<longrightarrow> list_all level_in_range (levels (run d ops)))"
proof -
  have g: "grows d (run d ops)" by (rule run_grows)
  have a: "list_all level_in_range (drop (length (levels d)) (levels (run d ops)))"
    using g by (auto simp: grows_def list_all_length)
  have b: "list_all level_in_range (levels (run d ops))" if "list_all level_in_range (levels d)"
    unfolding list_all_length
  proof (intro allI impI)
    fix j assume j: "j < length (levels (run d ops))"
    show "level_in_range (levels (run d ops) ! j)"
    proof (cases "j < length (levels d)")
      case True
      then have "level (levels (run d ops) ! j) = level (levels d ! j)"
        using g by (simp add: grows_def)
      moreover have "level_in_range (levels d ! j)"
        using that True by (simp add: list_all_length)
      ultimately show ?thesis by (simp add: level_in_range_def)
    next
      case False
      then show ?thesis using g j by (simp add: grows_def)
    qed
  qed
  from a b show ?thesis by blast
qed

theorem created_levels_in_range_witness:
  "list_all level_in_range (levels (chain_db 25)) \<and>
   list_all level_in_range
     (drop (length (levels (chain_db 25)))
        (levels (run (chain_db 25) [Registration ''0xnew'' (chain_user 24) 30]))) \<and>
   list_all level_in_range (levels (run (chain_db 25) [Registration ''0xnew'' (chain_user 24) 30])) \<and>
   map level (levels (run (chain_db 25) [Registration ''0xnew'' (chain_user 24) 30])) = [1..<22]"
proof -
  have h: "list_all level_in_range (levels (chain_db 25))"
    by (simp add: chain_db_def)
  have e: "map level (levels (run (chain_db 25) [Registration ''0xnew'' (chain_user 24) 30])) = [1..<22]"
    by code_simp
  from h created_levels_in_range [of "chain_db 25" "[Registration ''0xnew'' (chain_user 24) 30]"] e
  show ?thesis by blast
qed

text \<open>
  C5 (as the code has it). For a target level t in 1..21, \<open>getUsersAtLevel(referrer, t)\<close>
  returns exactly the users that are t referral edges below the referrer through
  active users only (every user on the way down, the one returned included, has
  status active), each annotated with the sum of the amounts of that user's ledger
  entries; the recursion is never entered with a level above t, hence never above 21.
  Both variants (tree-direct and stats-direct) do so. A user who is inactive or
  suspended, and everyone below such a user, is left out: the directory is queried
  with \<open>status: 'active'\<close>.
\<close>

theorem getUsersAtLevel_active_chain:
  assumes "1 \<le> t" and "t \<le> 21"
  shows "set (getUsersAtLevel d r t 1) =
           set (map (level_user d t) (filter (\<lambda>u. at_level d u t (toLowerCase r)) (users d))) \<and>
         set (getUsersAtLevel_stats d r t 1) =
           set (map (stats_user d) (filter (\<lambda>u. at_level d u t (toLowerCase r)) (users d))) \<and>
         list_all (\<lambda>x. lu_totalInvestment x =
                     sum_list (map i_amount
                       (filter (\<lambda>iv. i_userAddress iv = lu_userAddress x) (investments d))))
           (getUsersAtLevel d r t 1) \<and>
         list_all (\<lambda>x. su_totalInvestment x =
                     sum_list (map i_amount
                       (filter (\<lambda>iv. i_userAddress iv = su_userAddress x) (investments d))))
           (getUsersAtLevel_stats d r t 1) \<and>
         list_all (\<lambda>k. k \<le> t \<and> k \<le> 21) (getUsersAtLevel_calls d r t 1)"
proof -
  have S: "Suc (t - 1) = t" using assms by simp
  have a: "set (getUsersAtLevel d r t 1) =
      level_user d t ` {u \<in> set (users d). at_level d u t (toLowerCase r)}"
    using getUsersAtLevel_set [OF assms, of d r] unfolding S descends_at_level .
  have b: "set (getUsersAtLevel_stats d r t 1) =
      stats_user d ` {u \<in> set (users d). at_level d u t (toLowerCase r)}"
    using getUsersAtLevel_stats_set [OF assms, of d r] unfolding S descends_at_level .
  have c: "list_all (\<lambda>x. lu_totalInvestment x =
                     sum_list (map i_amount
                       (filter (\<lambda>iv. i_userAddress iv = lu_userAddress x) (investments d))))
           (getUsersAtLevel d r t 1)"
    unfolding list_all_iff a by (auto simp: level_user_def userInvestment_sum_list)
  have e: "list_all (\<lambda>x. su_totalInvestment x =
                     sum_list (map i_amount
                       (filter (\<lambda>iv. i_userAddress iv = su_userAddress x) (investments d))))
           (getUsersAtLevel_stats d r t 1)"
    unfolding list_all_iff b by (auto simp: stats_user_def userInvestment_sum_list)
  have f: "list_all (\<lambda>k. k \<le> t \<and> k \<le> 21) (getUsersAtLevel_calls d r t 1)"
    using getUsersAtLevel_calls_bound [OF assms(1), of d r] assms(2)
    by (auto simp: list_all_iff)
  show ?thesis
    using a b c e f by simp
qed

theorem getUsersAtLevel_active_chain_witness:
  "(1::nat) \<le> 2 \<and> (2::nat) \<le> 21 \<and>
   (set (getUsersAtLevel (scenario_A zero_address) ''0xR'' 2 1) =
           set (map (level_user (scenario_A zero_address) 2)
                  (filter (\<lambda>u. at_level (scenario_A zero_address) u 2 (toLowerCase ''0xR''))
                     (users (scenario_A zero_address)))) \<and>
         set (getUsersAtLevel_stats (scenario_A zero_address) ''0xR'' 2 1) =
           set (map (stats_user (scenario_A zero_address))
                  (filter (\<lambda>u. at_level (scenario_A zero_address) u 2 (toLowerCase ''0xR''))
                     (users (scenario_A zero_address)))) \<and>
         list_all (\<lambda>x. lu_totalInvestment x =
                     sum_list (map i_amount
                       (filter (\<lambda>iv. i_userAddress iv = lu_userAddress x)
                          (investments (scenario_A zero_address)))))
           (getUsersAtLevel (scenario_A zero_address) ''0xR'' 2 1) \<and>
         list_all (\<lambda>x. su_totalInvestment x =
                     sum_list (map i_amount
                       (filter (\<lambda>iv. i_userAddress iv = su_userAddress x)
                          (investments (scenario_A zero_address)))))
           (getUsersAtLevel_stats (scenario_A zero_address) ''0xR'' 2 1) \<and>
         list_all (\<lambda>k. k \<le> 2 \<and> k \<le> 21)
           (getUsersAtLevel_calls (scenario_A zero_address) ''0xR'' 2 1)) \<and>
   map lu_userAddress (getUsersAtLevel (scenario_A zero_address) ''0xR'' 2 1) = [''0xu2''] \<and>
   map lu_userAddress (getUsersAtLevel (scenario_A zero_address) ''0xR'' 1 1) = [''0xu1''] \<and>
   getUsersAtLevel_calls (scenario_A zero_address) ''0xR'' 2 1 = [1, 2]"
proof -
  have h1: "(1::nat) \<le> 2" and h2: "(2::nat) \<le> 21" by simp_all
  have e: "map lu_userAddress (getUsersAtLevel (scenario_A zero_address) ''0xR'' 2 1) = [''0xu2'']"
    "map lu_userAddress (getUsersAtLevel (scenario_A zero_address) ''0xR'' 1 1) = [''0xu1'']"
    "getUsersAtLevel_calls (scenario_A zero_address) ''0xR'' 2 1 = [1, 2]"
    unfolding scenario_A_zero zero_address_def by code_simp+
  from h1 h2 getUsersAtLevel_active_chain [OF h1 h2, of "scenario_A zero_address" "''0xR''"] e
  show ?thesis by (intro conjI) blast+
qed

text \<open>The claim as stated fails on an inactive user: 0xd is a direct referral of 0xa
  (distance 1), and the walk for level 1 below 0xa returns nobody.\<close>

theorem getUsersAtLevel_skips_inactive_user:
  "walletAddress (users inactive_row_db ! 0) = ''0xd'' \<and>
   u_referrerAddress (users inactive_row_db ! 0) = Some ''0xa'' \<and>
   getUsersAtLevel inactive_row_db ''0xa'' 1 1 = [] \<and>
   getUsersAtLevel_stats inactive_row_db ''0xa'' 1 1 = []"
  unfolding inactive_row_db_def by code_simp





end
